theory Spec2Isabelle
  imports Main "HOL-Library.AList"
begin

section \<open>Values of the Python program\<close>

text \<open>
  Both \<^verbatim>\<open>server.py\<close> and \<^verbatim>\<open>api/use-cases.py\<close> work on what \<^verbatim>\<open>json.load\<close> returns, so the
  model works on JSON values. A JSON number is an integer here (a float is outside
  the model). A Python \<^verbatim>\<open>dict\<close> with string keys is the list of its items in
  insertion order; a well-formed one has distinct keys.
\<close>

datatype json =
    JNull
  | JBool bool
  | JInt int
  | JStr string
  | JArr "json list"
  | JObj "(string \<times> json) list"

type_synonym py_dict = "(string \<times> json) list"

text \<open>
  The exceptions that reach the handlers. \<open>RuntimeError\<close> carries its message and
  \<open>HTTPError\<close> its \<^verbatim>\<open>code\<close> and \<^verbatim>\<open>reason\<close>, which the handlers print. \<open>OSError\<close>
  stands for \<^verbatim>\<open>FileNotFoundError\<close>, \<^verbatim>\<open>PermissionError\<close> and the like, \<open>ValueError\<close> for
  \<^verbatim>\<open>JSONDecodeError\<close> and \<^verbatim>\<open>UnicodeDecodeError\<close>, \<open>URLError\<close> for a transport failure
  that is not an \<^verbatim>\<open>HTTPError\<close>. \<open>KeyError\<close> carries the missing key. An exception of a
  subclass of \<^verbatim>\<open>RuntimeError\<close> (a \<^verbatim>\<open>RecursionError\<close>) is a \<open>RuntimeError\<close> here, as it is
  for an \<^verbatim>\<open>except\<close> clause.
\<close>

datatype exn =
    RuntimeError string
  | HTTPError int string
  | URLError
  | OSError
  | ValueError
  | KeyError string
  | TypeError
  | AttributeError

text \<open>Python's truth value of a JSON value, as \<^verbatim>\<open>if x\<close> and \<^verbatim>\<open>x or y\<close> test it.\<close>

fun truthy :: "json \<Rightarrow> bool" where
  "truthy JNull = False"
| "truthy (JBool b) = b"
| "truthy (JInt i) = (i \<noteq> 0)"
| "truthy (JStr s) = (s \<noteq> [])"
| "truthy (JArr xs) = (xs \<noteq> [])"
| "truthy (JObj kvs) = (kvs \<noteq> [])"

text \<open>\<^verbatim>\<open>a or b\<close>.\<close>

definition py_or :: "json \<Rightarrow> json \<Rightarrow> json" where
  "py_or a b = (if truthy a then a else b)"

text \<open>\<^verbatim>\<open>d.get(k, default)\<close> on a dict.\<close>

definition dict_get :: "py_dict \<Rightarrow> string \<Rightarrow> json \<Rightarrow> json" where
  "dict_get d k dflt = (case map_of d k of None \<Rightarrow> dflt | Some v \<Rightarrow> v)"

text \<open>\<^verbatim>\<open>x.get(k, default)\<close> on any value: only a dict has the method.\<close>

fun py_get :: "json \<Rightarrow> string \<Rightarrow> json \<Rightarrow> exn + json" where
  "py_get (JObj d) k dflt = Inr (dict_get d k dflt)"
| "py_get _ k dflt = Inl AttributeError"

text \<open>\<^verbatim>\<open>x[k]\<close> with a string key: \<^verbatim>\<open>KeyError\<close> on a dict without the key, \<^verbatim>\<open>TypeError\<close>
  on everything that is not a dict.\<close>

fun py_getitem :: "json \<Rightarrow> string \<Rightarrow> exn + json" where
  "py_getitem (JObj d) k = (case map_of d k of None \<Rightarrow> Inl (KeyError k) | Some v \<Rightarrow> Inr v)"
| "py_getitem _ k = Inl TypeError"

text \<open>\<^verbatim>\<open>for x in v\<close>: a list gives its elements, a dict its keys, a string its
  characters; nothing else is iterable.\<close>

fun py_iter :: "json \<Rightarrow> exn + json list" where
  "py_iter (JArr xs) = Inr xs"
| "py_iter (JObj d) = Inr (map (\<lambda>kv. JStr (fst kv)) d)"
| "py_iter (JStr s) = Inr (map (\<lambda>c. JStr [c]) s)"
| "py_iter _ = Inl TypeError"

text \<open>
  A value used as a dict key is hashed: a list or a dict raises \<^verbatim>\<open>TypeError\<close>.
  \<^verbatim>\<open>True\<close> and \<^verbatim>\<open>1\<close> (and \<^verbatim>\<open>False\<close> and \<^verbatim>\<open>0\<close>) are one key, so a key is
  kept in a normal form. The two lookup tables of the transformation are only read
  with \<^verbatim>\<open>get\<close>, so they are maps from normalised keys.
\<close>

fun dict_key :: "json \<Rightarrow> exn + json" where
  "dict_key (JArr xs) = Inl TypeError"
| "dict_key (JObj d) = Inl TypeError"
| "dict_key (JBool b) = Inr (JInt (if b then 1 else 0))"
| "dict_key v = Inr v"

section \<open>The sheet transformation\<close>

text \<open>
  \<^verbatim>\<open>server.py\<close>, the loop
  \<^verbatim>\<open>for col in ...: col_id_to_title[col["id"]] = col["title"]\<close>:
  an assignment evaluates its right-hand side first, then the subscript, then stores.
\<close>

fun col_id_to_title_loop :: "(json \<rightharpoonup> json) \<Rightarrow> json list \<Rightarrow> exn + (json \<rightharpoonup> json)" where
  "col_id_to_title_loop m [] = Inr m"
| "col_id_to_title_loop m (col # cols) =
     (case py_getitem col ''title'' of Inl e \<Rightarrow> Inl e | Inr title \<Rightarrow>
     (case py_getitem col ''id'' of Inl e \<Rightarrow> Inl e | Inr i \<Rightarrow>
     (case dict_key i of Inl e \<Rightarrow> Inl e | Inr k \<Rightarrow>
        col_id_to_title_loop (m(k \<mapsto> title)) cols)))"

text \<open>
  \<^verbatim>\<open>api/use-cases.py\<close>, the comprehension
  \<^verbatim>\<open>{col["id"]: col["title"] for col in ...}\<close>: the key is evaluated before the value.
\<close>

fun col_id_to_title_comp :: "(json \<rightharpoonup> json) \<Rightarrow> json list \<Rightarrow> exn + (json \<rightharpoonup> json)" where
  "col_id_to_title_comp m [] = Inr m"
| "col_id_to_title_comp m (col # cols) =
     (case py_getitem col ''id'' of Inl e \<Rightarrow> Inl e | Inr i \<Rightarrow>
     (case py_getitem col ''title'' of Inl e \<Rightarrow> Inl e | Inr title \<Rightarrow>
     (case dict_key i of Inl e \<Rightarrow> Inl e | Inr k \<Rightarrow>
        col_id_to_title_comp (m(k \<mapsto> title)) cols)))"

text \<open>\<^verbatim>\<open>{v: k for k, v in col_map.items()}\<close>, over the items in insertion order.\<close>

fun title_to_field_comp :: "(json \<rightharpoonup> string) \<Rightarrow> py_dict \<Rightarrow> exn + (json \<rightharpoonup> string)" where
  "title_to_field_comp m [] = Inr m"
| "title_to_field_comp m ((k, v) # items) =
     (case dict_key v of Inl e \<Rightarrow> Inl e | Inr t \<Rightarrow>
        title_to_field_comp (m(t \<mapsto> k)) items)"

text \<open>\<^verbatim>\<open>col_map.items()\<close> exists only on a dict.\<close>

fun title_to_field :: "json \<Rightarrow> exn + (json \<rightharpoonup> string)" where
  "title_to_field (JObj col_map) = title_to_field_comp Map.empty col_map"
| "title_to_field _ = Inl AttributeError"

text \<open>\<^verbatim>\<open>cell.get("displayValue") or cell.get("value") or ""\<close>.\<close>

definition cell_value :: "py_dict \<Rightarrow> json" where
  "cell_value cell =
     py_or (py_or (dict_get cell ''displayValue'' JNull) (dict_get cell ''value'' JNull))
           (JStr [])"

text \<open>
  The first two lines of the body of \<^verbatim>\<open>for cell in row.get("cells", [])\<close>, for a cell
  that is a dict: the column id (default \<^verbatim>\<open>0\<close>) is looked up in \<open>col_id_to_title\<close>
  (default \<^verbatim>\<open>""\<close>) and the title in \<open>title_to_field\<close> (default \<^verbatim>\<open>None\<close>).
\<close>

definition cell_field ::
  "(json \<rightharpoonup> json) \<Rightarrow> (json \<rightharpoonup> string) \<Rightarrow> py_dict \<Rightarrow> exn + string option" where
  "cell_field col_id_to_title t2f cell =
     (case dict_key (dict_get cell ''columnId'' (JInt 0)) of Inl e \<Rightarrow> Inl e | Inr cid \<Rightarrow>
     (case dict_key (case col_id_to_title cid of None \<Rightarrow> JStr [] | Some title \<Rightarrow> title) of
        Inl e \<Rightarrow> Inl e
      | Inr col_title \<Rightarrow> Inr (t2f col_title)))"

text \<open>The whole body: \<^verbatim>\<open>cell.get\<close> needs a dict, and \<^verbatim>\<open>if field:\<close> passes for a field name
  that is not empty.\<close>

fun process_cell ::
  "(json \<rightharpoonup> json) \<Rightarrow> (json \<rightharpoonup> string) \<Rightarrow> py_dict \<Rightarrow> json \<Rightarrow> exn + py_dict" where
  "process_cell col_id_to_title t2f record (JObj cell) =
     (case cell_field col_id_to_title t2f cell of
        Inl e \<Rightarrow> Inl e
      | Inr None \<Rightarrow> Inr record
      | Inr (Some field) \<Rightarrow>
          if field \<noteq> [] then Inr (AList.update field (cell_value cell) record)
          else Inr record)"
| "process_cell col_id_to_title t2f record _ = Inl AttributeError"

fun cells_loop ::
  "(json \<rightharpoonup> json) \<Rightarrow> (json \<rightharpoonup> string) \<Rightarrow> py_dict \<Rightarrow> json list \<Rightarrow> exn + py_dict" where
  "cells_loop c t record [] = Inr record"
| "cells_loop c t record (cell # cells) =
     (case process_cell c t record cell of Inl e \<Rightarrow> Inl e | Inr record' \<Rightarrow>
        cells_loop c t record' cells)"

text \<open>One pass of the row loop up to the name test: \<^verbatim>\<open>record = {"id": idx}\<close>, then the
  cells.\<close>

definition build_record ::
  "(json \<rightharpoonup> json) \<Rightarrow> (json \<rightharpoonup> string) \<Rightarrow> int \<Rightarrow> json \<Rightarrow> exn + py_dict" where
  "build_record c t idx row =
     (case py_get row ''cells'' (JArr []) of Inl e \<Rightarrow> Inl e | Inr cs \<Rightarrow>
     (case py_iter cs of Inl e \<Rightarrow> Inl e | Inr cells \<Rightarrow>
        cells_loop c t [(''id'', JInt idx)] cells))"

text \<open>\<^verbatim>\<open>if record.get("name")\<close>.\<close>

definition has_name :: "py_dict \<Rightarrow> bool" where
  "has_name record = truthy (dict_get record ''name'' JNull)"

text \<open>\<^verbatim>\<open>for idx, row in enumerate(rows, start=1)\<close>, from index \<open>idx\<close> on; the result is
  the list \<^verbatim>\<open>use_cases\<close> in the order of the appends.\<close>

fun rows_loop ::
  "(json \<rightharpoonup> json) \<Rightarrow> (json \<rightharpoonup> string) \<Rightarrow> int \<Rightarrow> json list \<Rightarrow> exn + py_dict list" where
  "rows_loop c t idx [] = Inr []"
| "rows_loop c t idx (row # rows) =
     (case build_record c t idx row of Inl e \<Rightarrow> Inl e | Inr record \<Rightarrow>
     (case rows_loop c t (idx + 1) rows of Inl e \<Rightarrow> Inl e | Inr use_cases \<Rightarrow>
        Inr (if has_name record then record # use_cases else use_cases)))"

text \<open>\<^verbatim>\<open>[uc.get("status", "") for uc in use_cases]\<close> and the four counters. A status is
  compared with a string, so Python's \<^verbatim>\<open>==\<close> is equality of values.\<close>

definition statuses :: "py_dict list \<Rightarrow> json list" where
  "statuses use_cases = map (\<lambda>uc. dict_get uc ''status'' (JStr [])) use_cases"

definition summary :: "py_dict list \<Rightarrow> py_dict" where
  "summary use_cases =
     [(''total_initiatives'', JInt (int (length use_cases))),
      (''in_production'', JInt (int (count_list (statuses use_cases) (JStr ''In Production'')))),
      (''poc_done'', JInt (int (count_list (statuses use_cases) (JStr ''POC Done'')))),
      (''poc_in_progress'',
         JInt (int (count_list (statuses use_cases) (JStr ''POC In Progress''))))]"

text \<open>The returned dict.\<close>

definition returned_dict :: "json \<Rightarrow> py_dict list \<Rightarrow> json" where
  "returned_dict title use_cases =
     JObj [(''metadata'', JObj [(''title'', title),
                                (''source'', JStr ''Smartsheet (live)''),
                                (''last_updated'', JStr ''live'')]),
           (''summary'', JObj (summary use_cases)),
           (''use_cases'', JArr (map JObj use_cases))]"

text \<open>The rows of the sheet: \<^verbatim>\<open>sheet.get("rows", [])\<close>, iterated.\<close>

definition sheet_rows :: "json \<Rightarrow> exn + json list" where
  "sheet_rows sheet =
     (case py_get sheet ''rows'' (JArr []) of Inl e \<Rightarrow> Inl e | Inr rs \<Rightarrow> py_iter rs)"

definition sheet_columns :: "json \<Rightarrow> exn + json list" where
  "sheet_columns sheet =
     (case py_get sheet ''columns'' (JArr []) of Inl e \<Rightarrow> Inl e | Inr cs \<Rightarrow> py_iter cs)"

text \<open>Everything after the column lookup is built, the same text in both files.\<close>

definition parse_rows :: "(json \<rightharpoonup> json) \<Rightarrow> json \<Rightarrow> json \<Rightarrow> exn + json" where
  "parse_rows c sheet col_map =
     (case title_to_field col_map of Inl e \<Rightarrow> Inl e | Inr t \<Rightarrow>
     (case sheet_rows sheet of Inl e \<Rightarrow> Inl e | Inr rows \<Rightarrow>
     (case rows_loop c t 1 rows of Inl e \<Rightarrow> Inl e | Inr use_cases \<Rightarrow>
     (case py_get sheet ''name'' (JStr ''AI Use Cases'') of Inl e \<Rightarrow> Inl e | Inr title \<Rightarrow>
        Inr (returned_dict title use_cases)))))"

text \<open>The table \<^verbatim>\<open>col_id_to_title\<close> of each file, from \<^verbatim>\<open>sheet.get("columns", [])\<close>.\<close>

definition col_id_to_title_server :: "json \<Rightarrow> exn + (json \<rightharpoonup> json)" where
  "col_id_to_title_server sheet =
     (case sheet_columns sheet of Inl e \<Rightarrow> Inl e | Inr cols \<Rightarrow>
        col_id_to_title_loop Map.empty cols)"

definition col_id_to_title_vercel :: "json \<Rightarrow> exn + (json \<rightharpoonup> json)" where
  "col_id_to_title_vercel sheet =
     (case sheet_columns sheet of Inl e \<Rightarrow> Inl e | Inr cols \<Rightarrow>
        col_id_to_title_comp Map.empty cols)"

text \<open>The transformation of \<^verbatim>\<open>fetch_smartsheet_data\<close> in \<^verbatim>\<open>server.py\<close>, from the parsed
  sheet and \<^verbatim>\<open>config["column_map"]\<close>.\<close>

definition transform_server :: "json \<Rightarrow> json \<Rightarrow> exn + json" where
  "transform_server sheet col_map =
     (case col_id_to_title_server sheet of Inl e \<Rightarrow> Inl e | Inr c \<Rightarrow>
        parse_rows c sheet col_map)"

text \<open>The transformation of \<^verbatim>\<open>_fetch_smartsheet_data\<close> in \<^verbatim>\<open>api/use-cases.py\<close>.\<close>

definition transform_vercel :: "json \<Rightarrow> json \<Rightarrow> exn + json" where
  "transform_vercel sheet col_map =
     (case col_id_to_title_vercel sheet of Inl e \<Rightarrow> Inl e | Inr c \<Rightarrow>
        parse_rows c sheet col_map)"

section \<open>Fetching and the request handlers\<close>


















section \<open>The specification's wording\<close>

text \<open>
  Following the specification: a cell entry is usable when it is present and
  non-empty. For the optional strings of the data model that is a string other than
  \<^verbatim>\<open>""\<close>; \<^verbatim>\<open>null\<close> is absent; a value of another JSON type counts as empty when Python
  takes it as false.
\<close>

fun usable :: "json option \<Rightarrow> json option" where
  "usable None = None"
| "usable (Some JNull) = None"
| "usable (Some (JStr s)) = (if s = [] then None else Some (JStr s))"
| "usable (Some v) = (if truthy v then Some v else None)"

text \<open>Following the specification: displayValue if usable, else value if usable, else
  the empty string.\<close>

definition spec_cell_value :: "json option \<Rightarrow> json option \<Rightarrow> json" where
  "spec_cell_value display_value val =
     (case usable display_value of
        Some d \<Rightarrow> d
      | None \<Rightarrow> (case usable val of Some v \<Rightarrow> v | None \<Rightarrow> JStr []))"

text \<open>Following the specification: the record's name is present and is not the empty
  string.\<close>

definition name_present_nonempty :: "py_dict \<Rightarrow> bool" where
  "name_present_nonempty record =
     (case map_of record ''name'' of None \<Rightarrow> False | Some v \<Rightarrow> v \<noteq> JStr [])"

text \<open>An invariant of the cell loop: what a record holds under a key is true for
  Python or is the empty string.\<close>

definition recorded_ok :: "py_dict \<Rightarrow> string \<Rightarrow> bool" where
  "recorded_ok r k = (\<forall>v. map_of r k = Some v \<longrightarrow> truthy v \<or> v = JStr [])"

text \<open>The key under which a column is stored in \<open>col_id_to_title\<close>: the hash key of
  \<^verbatim>\<open>col["id"]\<close>.\<close>

definition column_key :: "json \<Rightarrow> exn + json" where
  "column_key col = (case py_getitem col ''id'' of Inl e \<Rightarrow> Inl e | Inr i \<Rightarrow> dict_key i)"



section \<open>The inputs of the scenarios\<close>

definition scenario_col_map :: json where
  "scenario_col_map = JObj [(''name'', JStr ''Use Case''), (''status'', JStr ''Status'')]"

definition scenario_sheet :: json where
  "scenario_sheet =
     JObj [(''columns'',
              JArr [JObj [(''id'', JInt 1), (''title'', JStr ''Use Case'')],
                    JObj [(''id'', JInt 2), (''title'', JStr ''Status'')]]),
           (''rows'',
              JArr [JObj [(''cells'',
                       JArr [JObj [(''columnId'', JInt 1), (''value'', JStr ''Chatbot'')],
                             JObj [(''columnId'', JInt 2), (''value'', JStr ''In Production'')]])],
                    JObj [(''cells'',
                       JArr [JObj [(''columnId'', JInt 1), (''value'', JStr '''')]])]])]"

definition scenario_output :: json where
  "scenario_output =
     JObj [(''metadata'', JObj [(''title'', JStr ''AI Use Cases''),
                                (''source'', JStr ''Smartsheet (live)''),
                                (''last_updated'', JStr ''live'')]),
           (''summary'', JObj [(''total_initiatives'', JInt 1),
                               (''in_production'', JInt 1),
                               (''poc_done'', JInt 0),
                               (''poc_in_progress'', JInt 0)]),
           (''use_cases'',
              JArr [JObj [(''id'', JInt 1), (''name'', JStr ''Chatbot''),
                          (''status'', JStr ''In Production'')]])]"

text \<open>Tables for a single cell whose column is the name column.\<close>

definition precedence_c :: "json \<rightharpoonup> json" where
  "precedence_c = [JInt 1 \<mapsto> JStr ''Use Case'']"

definition precedence_t :: "json \<rightharpoonup> string" where
  "precedence_t = [JStr ''Use Case'' \<mapsto> ''name'']"

text \<open>A sheet whose first row has no name.\<close>

definition gap_sheet :: json where
  "gap_sheet =
     JObj [(''columns'',
              JArr [JObj [(''id'', JInt 1), (''title'', JStr ''Use Case'')],
                    JObj [(''id'', JInt 2), (''title'', JStr ''Status'')]]),
           (''rows'',
              JArr [JObj [(''cells'',
                       JArr [JObj [(''columnId'', JInt 2), (''value'', JStr ''POC Done'')]])],
                    JObj [(''cells'',
                       JArr [JObj [(''columnId'', JInt 1), (''value'', JStr ''Chatbot'')]])]])]"

definition gap_output :: json where
  "gap_output =
     JObj [(''metadata'', JObj [(''title'', JStr ''AI Use Cases''),
                                (''source'', JStr ''Smartsheet (live)''),
                                (''last_updated'', JStr ''live'')]),
           (''summary'', JObj [(''total_initiatives'', JInt 1),
                               (''in_production'', JInt 0),
                               (''poc_done'', JInt 0),
                               (''poc_in_progress'', JInt 0)]),
           (''use_cases'',
              JArr [JObj [(''id'', JInt 2), (''name'', JStr ''Chatbot'')]])]"

text \<open>A column map with the key \<^verbatim>\<open>id\<close>, on a sheet whose id column holds numbers, and on one
  whose id column holds text.\<close>

definition reorder_col_map :: json where
  "reorder_col_map = JObj [(''id'', JStr ''Rank''), (''name'', JStr ''Use Case'')]"

definition reorder_sheet :: json where
  "reorder_sheet =
     JObj [(''columns'',
              JArr [JObj [(''id'', JInt 1), (''title'', JStr ''Rank'')],
                    JObj [(''id'', JInt 2), (''title'', JStr ''Use Case'')]]),
           (''rows'',
              JArr [JObj [(''cells'',
                       JArr [JObj [(''columnId'', JInt 1), (''value'', JInt 5)],
                             JObj [(''columnId'', JInt 2), (''value'', JStr ''A'')]])],
                    JObj [(''cells'',
                       JArr [JObj [(''columnId'', JInt 1), (''value'', JInt 3)],
                             JObj [(''columnId'', JInt 2), (''value'', JStr ''B'')]])]])]"

definition reorder_output :: json where
  "reorder_output =
     JObj [(''metadata'', JObj [(''title'', JStr ''AI Use Cases''),
                                (''source'', JStr ''Smartsheet (live)''),
                                (''last_updated'', JStr ''live'')]),
           (''summary'', JObj [(''total_initiatives'', JInt 2),
                               (''in_production'', JInt 0),
                               (''poc_done'', JInt 0),
                               (''poc_in_progress'', JInt 0)]),
           (''use_cases'',
              JArr [JObj [(''id'', JInt 5), (''name'', JStr ''A'')],
                    JObj [(''id'', JInt 3), (''name'', JStr ''B'')]])]"

definition override_col_map :: json where
  "override_col_map = JObj [(''id'', JStr ''Ref''), (''name'', JStr ''Use Case'')]"

definition override_sheet :: json where
  "override_sheet =
     JObj [(''columns'',
              JArr [JObj [(''id'', JInt 1), (''title'', JStr ''Ref'')],
                    JObj [(''id'', JInt 2), (''title'', JStr ''Use Case'')]]),
           (''rows'',
              JArr [JObj [(''cells'',
                       JArr [JObj [(''columnId'', JInt 1), (''value'', JStr ''X7'')],
                             JObj [(''columnId'', JInt 2), (''value'', JStr ''Chatbot'')]])]])]"

definition override_output :: json where
  "override_output =
     JObj [(''metadata'', JObj [(''title'', JStr ''AI Use Cases''),
                                (''source'', JStr ''Smartsheet (live)''),
                                (''last_updated'', JStr ''live'')]),
           (''summary'', JObj [(''total_initiatives'', JInt 1),
                               (''in_production'', JInt 0),
                               (''poc_done'', JInt 0),
                               (''poc_in_progress'', JInt 0)]),
           (''use_cases'',
              JArr [JObj [(''id'', JStr ''X7''), (''name'', JStr ''Chatbot'')]])]"

definition override_c :: "json \<rightharpoonup> json" where
  "override_c = [JInt 1 \<mapsto> JStr ''Ref'', JInt 2 \<mapsto> JStr ''Use Case'']"

definition override_t :: "json \<rightharpoonup> string" where
  "override_t = [JStr ''Ref'' \<mapsto> ''id'', JStr ''Use Case'' \<mapsto> ''name'']"

text \<open>Two columns with the same id, and a column map with two fields for one title.\<close>

definition dup_sheet :: json where
  "dup_sheet =
     JObj [(''columns'',
              JArr [JObj [(''id'', JInt 1), (''title'', JStr ''Old'')],
                    JObj [(''id'', JInt 1), (''title'', JStr ''New'')]])]"

definition dup_col_map :: json where
  "dup_col_map = JObj [(''name'', JStr ''Title''), (''status'', JStr ''Title'')]"













section \<open>The transformation on a store\<close>

text \<open>
  The same statements again, with the objects of the program in a store. A dict or a
  list is an object at an address; a number, a string, \<^verbatim>\<open>None\<close> or a boolean is a value;
  a variable or an entry that holds a dict or a list holds its address. The store is
  the list of all objects, the address of an object is its index, and a new object is
  put at the end. What \<^verbatim>\<open>json.load\<close> returned (the sheet, the column map) lies in the
  store like every other object of the process.
\<close>

datatype val = VNone | VBool bool | VInt int | VStr string | VRef nat

datatype obj = DictObj "(val \<times> val) list" | ListObj "val list"

type_synonym heap = "obj list"

definition obj_at :: "heap \<Rightarrow> val \<Rightarrow> obj option" where
  "obj_at h v = (case v of VRef a \<Rightarrow> (if a < length h then Some (h ! a) else None) | _ \<Rightarrow> None)"

text \<open>A dict display \<^verbatim>\<open>{...}\<close> or a list display \<^verbatim>\<open>[...]\<close> makes a new object.\<close>

definition alloc :: "heap \<Rightarrow> obj \<Rightarrow> nat \<times> heap" where
  "alloc h ob = (length h, h @ [ob])"

text \<open>\<^verbatim>\<open>d[k] = v\<close> on the dict at address \<open>a\<close>, and \<^verbatim>\<open>xs.append(v)\<close> on the list at \<open>a\<close>.\<close>

definition dict_setitem :: "heap \<Rightarrow> nat \<Rightarrow> val \<Rightarrow> val \<Rightarrow> heap" where
  "dict_setitem h a k v =
     (case obj_at h (VRef a) of
        Some (DictObj kvs) \<Rightarrow> h[a := DictObj (AList.update k v kvs)]
      | _ \<Rightarrow> h)"

definition list_append :: "heap \<Rightarrow> nat \<Rightarrow> val \<Rightarrow> heap" where
  "list_append h a v =
     (case obj_at h (VRef a) of
        Some (ListObj vs) \<Rightarrow> h[a := ListObj (vs @ [v])]
      | _ \<Rightarrow> h)"

text \<open>\<^verbatim>\<open>d.get(k, default)\<close> on the dict at address \<open>a\<close>.\<close>

definition dict_lookup :: "heap \<Rightarrow> nat \<Rightarrow> val \<Rightarrow> val \<Rightarrow> val" where
  "dict_lookup h a k dflt =
     (case obj_at h (VRef a) of
        Some (DictObj kvs) \<Rightarrow> (case map_of kvs k of None \<Rightarrow> dflt | Some v \<Rightarrow> v)
      | _ \<Rightarrow> dflt)"

text \<open>The truth value: a dict or a list is true when it is not empty.\<close>

definition h_truthy :: "heap \<Rightarrow> val \<Rightarrow> bool" where
  "h_truthy h v =
     (case v of
        VNone \<Rightarrow> False
      | VBool b \<Rightarrow> b
      | VInt i \<Rightarrow> i \<noteq> 0
      | VStr s \<Rightarrow> s \<noteq> []
      | VRef a \<Rightarrow>
          (case obj_at h v of
             Some (DictObj kvs) \<Rightarrow> kvs \<noteq> []
           | Some (ListObj vs) \<Rightarrow> vs \<noteq> []
           | None \<Rightarrow> True))"

text \<open>\<^verbatim>\<open>x.get(k, default)\<close> with a default that is a value, \<^verbatim>\<open>x[k]\<close>, \<^verbatim>\<open>for y in x\<close> and the
  hash key, as before.\<close>

definition h_get :: "heap \<Rightarrow> val \<Rightarrow> string \<Rightarrow> val \<Rightarrow> exn + val" where
  "h_get h x k dflt =
     (case obj_at h x of
        Some (DictObj kvs) \<Rightarrow> Inr (case map_of kvs (VStr k) of None \<Rightarrow> dflt | Some v \<Rightarrow> v)
      | _ \<Rightarrow> Inl AttributeError)"

definition h_getitem :: "heap \<Rightarrow> val \<Rightarrow> string \<Rightarrow> exn + val" where
  "h_getitem h x k =
     (case obj_at h x of
        Some (DictObj kvs) \<Rightarrow>
          (case map_of kvs (VStr k) of None \<Rightarrow> Inl (KeyError k) | Some v \<Rightarrow> Inr v)
      | _ \<Rightarrow> Inl TypeError)"

definition h_iter :: "heap \<Rightarrow> val \<Rightarrow> exn + val list" where
  "h_iter h x =
     (case x of
        VStr s \<Rightarrow> Inr (map (\<lambda>c. VStr [c]) s)
      | VRef a \<Rightarrow>
          (case obj_at h x of
             Some (ListObj vs) \<Rightarrow> Inr vs
           | Some (DictObj kvs) \<Rightarrow> Inr (map fst kvs)
           | None \<Rightarrow> Inl TypeError)
      | _ \<Rightarrow> Inl TypeError)"

fun h_key :: "val \<Rightarrow> exn + val" where
  "h_key (VRef a) = Inl TypeError"
| "h_key (VBool b) = Inr (VInt (if b then 1 else 0))"
| "h_key v = Inr v"

text \<open>\<^verbatim>\<open>x.get(k, [])\<close>: the method is looked up first, then the default list is made, then
  the call returns the entry or the new list.\<close>

definition h_get_new_list :: "heap \<Rightarrow> val \<Rightarrow> string \<Rightarrow> (exn + val) \<times> heap" where
  "h_get_new_list h x k =
     (case obj_at h x of
        Some (DictObj kvs) \<Rightarrow>
          (let (a, h1) = alloc h (ListObj [])
           in (Inr (case map_of kvs (VStr k) of None \<Rightarrow> VRef a | Some v \<Rightarrow> v), h1))
      | _ \<Rightarrow> (Inl AttributeError, h))"

text \<open>The loop of \<^verbatim>\<open>server.py\<close> into the dict \<open>d\<close> (\<^verbatim>\<open>col_id_to_title\<close>).\<close>

fun st_col_loop :: "heap \<Rightarrow> nat \<Rightarrow> val list \<Rightarrow> (exn + unit) \<times> heap" where
  "st_col_loop h d [] = (Inr (), h)"
| "st_col_loop h d (col # cols) =
     (case h_getitem h col ''title'' of Inl e \<Rightarrow> (Inl e, h) | Inr title \<Rightarrow>
     (case h_getitem h col ''id'' of Inl e \<Rightarrow> (Inl e, h) | Inr i \<Rightarrow>
     (case h_key i of Inl e \<Rightarrow> (Inl e, h) | Inr k \<Rightarrow>
        st_col_loop (dict_setitem h d k title) d cols)))"

text \<open>The comprehension of \<^verbatim>\<open>api/use-cases.py\<close> into the dict \<open>d\<close>.\<close>

fun st_col_comp :: "heap \<Rightarrow> nat \<Rightarrow> val list \<Rightarrow> (exn + unit) \<times> heap" where
  "st_col_comp h d [] = (Inr (), h)"
| "st_col_comp h d (col # cols) =
     (case h_getitem h col ''id'' of Inl e \<Rightarrow> (Inl e, h) | Inr i \<Rightarrow>
     (case h_getitem h col ''title'' of Inl e \<Rightarrow> (Inl e, h) | Inr title \<Rightarrow>
     (case h_key i of Inl e \<Rightarrow> (Inl e, h) | Inr k \<Rightarrow>
        st_col_comp (dict_setitem h d k title) d cols)))"

text \<open>\<^verbatim>\<open>server.py\<close>: \<^verbatim>\<open>col_id_to_title = {}\<close>, then the loop over
  \<^verbatim>\<open>sheet.get("columns", [])\<close>.\<close>

definition st_col_id_to_title_server :: "heap \<Rightarrow> val \<Rightarrow> (exn + nat) \<times> heap" where
  "st_col_id_to_title_server h sheet =
     (let (d, h1) = alloc h (DictObj [])
      in (case h_get_new_list h1 sheet ''columns'' of
            (Inl e, h2) \<Rightarrow> (Inl e, h2)
          | (Inr cs, h2) \<Rightarrow>
     (case h_iter h2 cs of Inl e \<Rightarrow> (Inl e, h2) | Inr cols \<Rightarrow>
     (case st_col_loop h2 d cols of
        (Inl e, h3) \<Rightarrow> (Inl e, h3)
      | (Inr u, h3) \<Rightarrow> (Inr d, h3)))))"

text \<open>\<^verbatim>\<open>api/use-cases.py\<close>: the iterable \<^verbatim>\<open>sheet.get("columns", [])\<close> is evaluated, then the
  comprehension makes its dict and fills it.\<close>

definition st_col_id_to_title_vercel :: "heap \<Rightarrow> val \<Rightarrow> (exn + nat) \<times> heap" where
  "st_col_id_to_title_vercel h sheet =
     (case h_get_new_list h sheet ''columns'' of
        (Inl e, h1) \<Rightarrow> (Inl e, h1)
      | (Inr cs, h1) \<Rightarrow>
     (case h_iter h1 cs of Inl e \<Rightarrow> (Inl e, h1) | Inr cols \<Rightarrow>
     (let (d, h2) = alloc h1 (DictObj [])
      in (case st_col_comp h2 d cols of
            (Inl e, h3) \<Rightarrow> (Inl e, h3)
          | (Inr u, h3) \<Rightarrow> (Inr d, h3)))))"

text \<open>\<^verbatim>\<open>{v: k for k, v in col_map.items()}\<close> into the dict \<open>t\<close>. In \<^verbatim>\<open>server.py\<close> the dict
  that is read is \<^verbatim>\<open>field_to_title\<close>, a second name of the object \<^verbatim>\<open>col_map\<close>.\<close>

fun st_t2f_loop :: "heap \<Rightarrow> nat \<Rightarrow> (val \<times> val) list \<Rightarrow> (exn + unit) \<times> heap" where
  "st_t2f_loop h t [] = (Inr (), h)"
| "st_t2f_loop h t ((k, v) # items) =
     (case h_key v of Inl e \<Rightarrow> (Inl e, h) | Inr key \<Rightarrow>
        st_t2f_loop (dict_setitem h t key k) t items)"

definition st_title_to_field :: "heap \<Rightarrow> val \<Rightarrow> (exn + nat) \<times> heap" where
  "st_title_to_field h field_to_title =
     (case obj_at h field_to_title of
        Some (DictObj items) \<Rightarrow>
          (let (t, h1) = alloc h (DictObj [])
           in (case st_t2f_loop h1 t items of
                 (Inl e, h2) \<Rightarrow> (Inl e, h2)
               | (Inr u, h2) \<Rightarrow> (Inr t, h2)))
      | _ \<Rightarrow> (Inl AttributeError, h))"

text \<open>The body of the cell loop: the two lookups, then \<^verbatim>\<open>if field:\<close> and the store into
  \<^verbatim>\<open>record\<close>. \<^verbatim>\<open>a or b or ""\<close> evaluates \<^verbatim>\<open>b\<close> only when \<^verbatim>\<open>a\<close> is false.\<close>

definition st_cell_field :: "heap \<Rightarrow> nat \<Rightarrow> nat \<Rightarrow> val \<Rightarrow> exn + val" where
  "st_cell_field h c t cell =
     (case h_get h cell ''columnId'' (VInt 0) of Inl e \<Rightarrow> Inl e | Inr cid \<Rightarrow>
     (case h_key cid of Inl e \<Rightarrow> Inl e | Inr k \<Rightarrow>
     (case h_key (dict_lookup h c k (VStr [])) of Inl e \<Rightarrow> Inl e | Inr col_title \<Rightarrow>
        Inr (dict_lookup h t col_title VNone))))"

definition st_cell_value :: "heap \<Rightarrow> val \<Rightarrow> exn + val" where
  "st_cell_value h cell =
     (case h_get h cell ''displayValue'' VNone of Inl e \<Rightarrow> Inl e | Inr dv \<Rightarrow>
        if h_truthy h dv then Inr dv
        else (case h_get h cell ''value'' VNone of Inl e \<Rightarrow> Inl e | Inr v \<Rightarrow>
                if h_truthy h v then Inr v else Inr (VStr [])))"

definition st_process_cell ::
  "heap \<Rightarrow> nat \<Rightarrow> nat \<Rightarrow> nat \<Rightarrow> val \<Rightarrow> (exn + unit) \<times> heap" where
  "st_process_cell h c t record cell =
     (case st_cell_field h c t cell of Inl e \<Rightarrow> (Inl e, h) | Inr field \<Rightarrow>
        if h_truthy h field
        then (case st_cell_value h cell of Inl e \<Rightarrow> (Inl e, h) | Inr v \<Rightarrow>
                (Inr (), dict_setitem h record field v))
        else (Inr (), h))"

fun st_cells_loop ::
  "heap \<Rightarrow> nat \<Rightarrow> nat \<Rightarrow> nat \<Rightarrow> val list \<Rightarrow> (exn + unit) \<times> heap" where
  "st_cells_loop h c t record [] = (Inr (), h)"
| "st_cells_loop h c t record (cell # cells) =
     (case st_process_cell h c t record cell of
        (Inl e, h1) \<Rightarrow> (Inl e, h1)
      | (Inr u, h1) \<Rightarrow> st_cells_loop h1 c t record cells)"

text \<open>\<^verbatim>\<open>record = {"id": idx}\<close> and the loop over \<^verbatim>\<open>row.get("cells", [])\<close>.\<close>

definition st_build_record ::
  "heap \<Rightarrow> nat \<Rightarrow> nat \<Rightarrow> int \<Rightarrow> val \<Rightarrow> (exn + nat) \<times> heap" where
  "st_build_record h c t idx row =
     (let (record, h1) = alloc h (DictObj [(VStr ''id'', VInt idx)])
      in (case h_get_new_list h1 row ''cells'' of
            (Inl e, h2) \<Rightarrow> (Inl e, h2)
          | (Inr cs, h2) \<Rightarrow>
     (case h_iter h2 cs of Inl e \<Rightarrow> (Inl e, h2) | Inr cells \<Rightarrow>
     (case st_cells_loop h2 c t record cells of
        (Inl e, h3) \<Rightarrow> (Inl e, h3)
      | (Inr u, h3) \<Rightarrow> (Inr record, h3)))))"

text \<open>The row loop: \<^verbatim>\<open>if record.get("name"): use_cases.append(record)\<close>.\<close>

fun st_rows_loop ::
  "heap \<Rightarrow> nat \<Rightarrow> nat \<Rightarrow> nat \<Rightarrow> int \<Rightarrow> val list \<Rightarrow> (exn + unit) \<times> heap" where
  "st_rows_loop h c t use_cases idx [] = (Inr (), h)"
| "st_rows_loop h c t use_cases idx (row # rows) =
     (case st_build_record h c t idx row of
        (Inl e, h1) \<Rightarrow> (Inl e, h1)
      | (Inr record, h1) \<Rightarrow>
          st_rows_loop
            (if h_truthy h1 (dict_lookup h1 record (VStr ''name'') VNone)
             then list_append h1 use_cases (VRef record) else h1)
            c t use_cases (idx + 1) rows)"

text \<open>\<^verbatim>\<open>[uc.get("status", "") for uc in use_cases]\<close>, element by element.\<close>

fun st_status_list :: "heap \<Rightarrow> val list \<Rightarrow> exn + val list" where
  "st_status_list h [] = Inr []"
| "st_status_list h (uc # ucs) =
     (case h_get h uc ''status'' (VStr []) of Inl e \<Rightarrow> Inl e | Inr s \<Rightarrow>
     (case st_status_list h ucs of Inl e \<Rightarrow> Inl e | Inr ss \<Rightarrow> Inr (s # ss)))"

text \<open>The elements of the list at an address (none when there is no list).\<close>

definition list_items :: "heap \<Rightarrow> nat \<Rightarrow> val list" where
  "list_items h a = (case obj_at h (VRef a) of Some (ListObj vs) \<Rightarrow> vs | _ \<Rightarrow> [])"

text \<open>The dict \<^verbatim>\<open>summary\<close>.\<close>

definition st_summary :: "val list \<Rightarrow> val list \<Rightarrow> obj" where
  "st_summary ucs ss =
     DictObj
       [(VStr ''total_initiatives'', VInt (int (length ucs))),
        (VStr ''in_production'', VInt (int (count_list ss (VStr ''In Production'')))),
        (VStr ''poc_done'', VInt (int (count_list ss (VStr ''POC Done'')))),
        (VStr ''poc_in_progress'', VInt (int (count_list ss (VStr ''POC In Progress''))))]"

text \<open>
  The end of the function: the list \<^verbatim>\<open>statuses\<close>, the dict \<^verbatim>\<open>summary\<close>, the \<^verbatim>\<open>metadata\<close>
  dict with \<^verbatim>\<open>sheet.get("name", "AI Use Cases")\<close>, and the returned dict.
\<close>

definition st_return :: "heap \<Rightarrow> val \<Rightarrow> nat \<Rightarrow> (exn + val) \<times> heap" where
  "st_return h sheet use_cases =
     (case st_status_list h (list_items h use_cases) of
        Inl e \<Rightarrow> (Inl e, h)
      | Inr ss \<Rightarrow>
          (let (stats, h1) = alloc h (ListObj ss);
               (summ, h2) = alloc h1 (st_summary (list_items h1 use_cases) ss)
           in (case h_get h2 sheet ''name'' (VStr ''AI Use Cases'') of
                 Inl e \<Rightarrow> (Inl e, h2)
               | Inr title \<Rightarrow>
                   (let (metadata, h3) =
                          alloc h2 (DictObj [(VStr ''title'', title),
                                             (VStr ''source'', VStr ''Smartsheet (live)''),
                                             (VStr ''last_updated'', VStr ''live'')]);
                        (returned, h4) =
                          alloc h3 (DictObj [(VStr ''metadata'', VRef metadata),
                                             (VStr ''summary'', VRef summ),
                                             (VStr ''use_cases'', VRef use_cases)])
                    in (Inr (VRef returned), h4)))))"

text \<open>
  Everything after the column table: the inverted column map, \<^verbatim>\<open>use_cases = []\<close>, the
  row loop over \<^verbatim>\<open>sheet.get("rows", [])\<close>, and the end of the function.
\<close>

definition st_parse_rows :: "heap \<Rightarrow> nat \<Rightarrow> val \<Rightarrow> val \<Rightarrow> (exn + val) \<times> heap" where
  "st_parse_rows h c sheet col_map =
     (case st_title_to_field h col_map of
        (Inl e, h1) \<Rightarrow> (Inl e, h1)
      | (Inr t, h1) \<Rightarrow>
          (let (use_cases, h2) = alloc h1 (ListObj [])
           in (case h_get_new_list h2 sheet ''rows'' of
                 (Inl e, h3) \<Rightarrow> (Inl e, h3)
               | (Inr rs, h3) \<Rightarrow>
                   (case h_iter h3 rs of
                      Inl e \<Rightarrow> (Inl e, h3)
                    | Inr rows \<Rightarrow>
                        (case st_rows_loop h3 c t use_cases 1 rows of
                           (Inl e, h4) \<Rightarrow> (Inl e, h4)
                         | (Inr u, h4) \<Rightarrow> st_return h4 sheet use_cases)))))"

text \<open>The transformation of each file on a store.\<close>

definition st_transform_server :: "heap \<Rightarrow> val \<Rightarrow> val \<Rightarrow> (exn + val) \<times> heap" where
  "st_transform_server h sheet col_map =
     (case st_col_id_to_title_server h sheet of
        (Inl e, h1) \<Rightarrow> (Inl e, h1)
      | (Inr c, h1) \<Rightarrow> st_parse_rows h1 c sheet col_map)"

definition st_transform_vercel :: "heap \<Rightarrow> val \<Rightarrow> val \<Rightarrow> (exn + val) \<times> heap" where
  "st_transform_vercel h sheet col_map =
     (case st_col_id_to_title_vercel h sheet of
        (Inl e, h1) \<Rightarrow> (Inl e, h1)
      | (Inr c, h1) \<Rightarrow> st_parse_rows h1 c sheet col_map)"

text \<open>
  What a value stands for, read through the store as \<^verbatim>\<open>json.dumps\<close> reads it: a value
  stands for itself, the address of a list for the array of what its elements stand
  for, the address of a dict with string keys for the object of what its entries
  stand for.
\<close>

inductive rep :: "heap \<Rightarrow> val \<Rightarrow> json \<Rightarrow> bool" for h :: heap where
  rep_None: "rep h VNone JNull"
| rep_Bool: "rep h (VBool b) (JBool b)"
| rep_Int: "rep h (VInt i) (JInt i)"
| rep_Str: "rep h (VStr s) (JStr s)"
| rep_List:
    "a < length h \<Longrightarrow> h ! a = ListObj vs \<Longrightarrow> list_all2 (rep h) vs js \<Longrightarrow> rep h (VRef a) (JArr js)"
| rep_Dict:
    "a < length h \<Longrightarrow> h ! a = DictObj kvs \<Longrightarrow>
     list_all2 (\<lambda>kv kj. fst kv = VStr (fst kj) \<and> rep h (snd kv) (snd kj)) kvs kjs \<Longrightarrow>
     rep h (VRef a) (JObj kjs)"

text \<open>What the result of a run stands for: the exception that was raised, or the JSON
  value of the object that was returned.\<close>

definition stands_for :: "heap \<Rightarrow> exn + val \<Rightarrow> (exn + json) set" where
  "stands_for h r = {out. rel_sum (=) (rep h) r out}"

text \<open>Between two stores: the second has every address of the first, and holds the
  same object at each of them except those in \<open>A\<close>.\<close>

definition grows :: "nat set \<Rightarrow> heap \<Rightarrow> heap \<Rightarrow> bool" where
  "grows A h h' \<longleftrightarrow> length h \<le> length h' \<and> (\<forall>a<length h. a \<notin> A \<longrightarrow> h' ! a = h ! a)"

text \<open>A value that is not an address, as JSON.\<close>

fun atom :: "val \<Rightarrow> json option" where
  "atom VNone = Some JNull"
| "atom (VBool b) = Some (JBool b)"
| "atom (VInt i) = Some (JInt i)"
| "atom (VStr s) = Some (JStr s)"
| "atom (VRef a) = None"

text \<open>The entries of a dict object against the items of a JSON object.\<close>

definition entries_rep :: "heap \<Rightarrow> (val \<times> val) list \<Rightarrow> py_dict \<Rightarrow> bool" where
  "entries_rep h0 kvs kjs =
     list_all2 (\<lambda>kv kj. fst kv = VStr (fst kj) \<and> rep h0 (snd kv) (snd kj)) kvs kjs"

text \<open>The dict at an address against a lookup table of the transformation, its values
  read in the store \<open>h0\<close>.\<close>

definition table_rep :: "heap \<Rightarrow> heap \<Rightarrow> nat \<Rightarrow> (json \<rightharpoonup> json) \<Rightarrow> bool" where
  "table_rep h0 h c m \<longleftrightarrow>
     (\<exists>kvs. obj_at h (VRef c) = Some (DictObj kvs) \<and>
        (\<forall>k jk. atom k = Some jk \<longrightarrow> rel_option (rep h0) (map_of kvs k) (m jk)))"

definition names_rep :: "heap \<Rightarrow> nat \<Rightarrow> (json \<rightharpoonup> string) \<Rightarrow> bool" where
  "names_rep h t m \<longleftrightarrow>
     (\<exists>kvs. obj_at h (VRef t) = Some (DictObj kvs) \<and>
        (\<forall>k jk. atom k = Some jk \<longrightarrow> map_of kvs k = map_option VStr (m jk)))"

text \<open>The dict at an address against a record, and the list at an address against the
  list of records.\<close>

definition record_rep :: "heap \<Rightarrow> heap \<Rightarrow> nat \<Rightarrow> py_dict \<Rightarrow> bool" where
  "record_rep h0 h r rec \<longleftrightarrow>
     (\<exists>kvs. obj_at h (VRef r) = Some (DictObj kvs) \<and> entries_rep h0 kvs rec)"

definition use_cases_rep :: "heap \<Rightarrow> heap \<Rightarrow> nat \<Rightarrow> py_dict list \<Rightarrow> bool" where
  "use_cases_rep h0 h u recs \<longleftrightarrow>
     (\<exists>vs. obj_at h (VRef u) = Some (ListObj vs) \<and>
        list_all2 (\<lambda>v rec. \<exists>r. v = VRef r \<and> r \<noteq> u \<and> record_rep h0 h r rec) vs recs)"

text \<open>The store of the scenario: the column map at address 0, the sheet at address 12;
  and another store that holds the same two at other addresses (the sheet at 1, the
  column map at 2), after a list that is not part of them.\<close>

definition scenario_heap :: heap where
  "scenario_heap =
     [DictObj [(VStr ''name'', VStr ''Use Case''), (VStr ''status'', VStr ''Status'')],
      DictObj [(VStr ''id'', VInt 1), (VStr ''title'', VStr ''Use Case'')],
      DictObj [(VStr ''id'', VInt 2), (VStr ''title'', VStr ''Status'')],
      ListObj [VRef 1, VRef 2],
      DictObj [(VStr ''columnId'', VInt 1), (VStr ''value'', VStr ''Chatbot'')],
      DictObj [(VStr ''columnId'', VInt 2), (VStr ''value'', VStr ''In Production'')],
      ListObj [VRef 4, VRef 5],
      DictObj [(VStr ''cells'', VRef 6)],
      DictObj [(VStr ''columnId'', VInt 1), (VStr ''value'', VStr [])],
      ListObj [VRef 8],
      DictObj [(VStr ''cells'', VRef 9)],
      ListObj [VRef 7, VRef 10],
      DictObj [(VStr ''columns'', VRef 3), (VStr ''rows'', VRef 11)]]"

definition scenario_heap_other :: heap where
  "scenario_heap_other =
     [ListObj [VInt 7],
      DictObj [(VStr ''columns'', VRef 5), (VStr ''rows'', VRef 13)],
      DictObj [(VStr ''name'', VStr ''Use Case''), (VStr ''status'', VStr ''Status'')],
      DictObj [(VStr ''id'', VInt 1), (VStr ''title'', VStr ''Use Case'')],
      DictObj [(VStr ''id'', VInt 2), (VStr ''title'', VStr ''Status'')],
      ListObj [VRef 3, VRef 4],
      DictObj [(VStr ''columnId'', VInt 1), (VStr ''value'', VStr ''Chatbot'')],
      DictObj [(VStr ''columnId'', VInt 2), (VStr ''value'', VStr ''In Production'')],
      ListObj [VRef 6, VRef 7],
      DictObj [(VStr ''cells'', VRef 8)],
      DictObj [(VStr ''columnId'', VInt 1), (VStr ''value'', VStr [])],
      ListObj [VRef 10],
      DictObj [(VStr ''cells'', VRef 11)],
      ListObj [VRef 9, VRef 12]]"

section \<open>Properties of the loops\<close>

lemma cell_value_truthy_or_empty: "truthy (cell_value cell) \<or> cell_value cell = JStr []"
  by (simp add: cell_value_def py_or_def)

lemma usable_truthy: "usable x = (case x of None \<Rightarrow> None | Some v \<Rightarrow> if truthy v then Some v else None)"
  by (cases x rule: usable.cases) auto

lemma cell_value_spec:
  "cell_value cell = spec_cell_value (map_of cell ''displayValue'') (map_of cell ''value'')"
  by (simp add: cell_value_def py_or_def spec_cell_value_def usable_truthy dict_get_def
      split: option.splits)

lemma process_cell_Inr:
  assumes "process_cell c t r cell = Inr r'"
  shows "r' = r \<or> (\<exists>d f k. cell = JObj d \<and> t k = Some f \<and> f \<noteq> [] \<and>
            r' = AList.update f (cell_value d) r)"
  using assms
  by (cases cell) (auto simp: cell_field_def split: sum.splits option.splits if_splits)

lemma subset_step: "A \<subseteq> B \<union> R \<Longrightarrow> B \<subseteq> C \<union> R \<Longrightarrow> A \<subseteq> C \<union> R"
  by blast

lemma cells_loop_keys:
  "cells_loop c t r cells = Inr r' \<Longrightarrow> fst ` set r' \<subseteq> fst ` set r \<union> ran t"
proof (induction cells arbitrary: r)
  case Nil
  then show ?case by simp
next
  case (Cons cell cells)
  from Cons.prems obtain r1 where s: "process_cell c t r cell = Inr r1"
    and l: "cells_loop c t r1 cells = Inr r'"
    by (auto split: sum.splits)
  have step: "fst ` set r1 \<subseteq> fst ` set r \<union> ran t"
  proof -
    from process_cell_Inr [OF s] consider "r1 = r"
      | d f k where "t k = Some f" "r1 = AList.update f (cell_value d) r"
      by blast
    then show ?thesis
    proof cases
      case 1
      then show ?thesis by simp
    next
      case 2
      from 2(1) have "f \<in> ran t" by (rule ranI)
      moreover have "fst ` set r1 = {f} \<union> fst ` set r"
        unfolding 2(2) by (rule dom_update)
      ultimately show ?thesis by simp
    qed
  qed
  show ?case by (rule subset_step [OF Cons.IH [OF l] step])
qed

lemma cells_loop_other_key:
  "cells_loop c t r cells = Inr r' \<Longrightarrow> k \<notin> ran t \<Longrightarrow> map_of r' k = map_of r k"
proof (induction cells arbitrary: r)
  case Nil
  then show ?case by simp
next
  case (Cons cell cells)
  from Cons.prems obtain r1 where s: "process_cell c t r cell = Inr r1"
    and l: "cells_loop c t r1 cells = Inr r'"
    by (auto split: sum.splits)
  from process_cell_Inr [OF s] Cons.prems(2) have "map_of r1 k = map_of r k"
    by (auto simp: update_conv' ran_def)
  with Cons.IH [OF l Cons.prems(2)] show ?case by simp
qed

lemma cells_loop_recorded_ok:
  "cells_loop c t r cells = Inr r' \<Longrightarrow> recorded_ok r k \<Longrightarrow> recorded_ok r' k"
proof (induction cells arbitrary: r)
  case Nil
  then show ?case by simp
next
  case (Cons cell cells)
  from Cons.prems obtain r1 where s: "process_cell c t r cell = Inr r1"
    and l: "cells_loop c t r1 cells = Inr r'"
    by (auto split: sum.splits)
  have "recorded_ok r1 k"
  proof -
    from process_cell_Inr [OF s] consider "r1 = r"
      | d f where "r1 = AList.update f (cell_value d) r"
      by blast
    then show ?thesis
    proof cases
      case 1
      with Cons.prems(2) show ?thesis by simp
    next
      case 2
      show ?thesis
        unfolding recorded_ok_def
      proof (intro allI impI)
        fix v assume v: "map_of r1 k = Some v"
        show "truthy v \<or> v = JStr []"
        proof (cases "k = f")
          case True
          with v 2 have "v = cell_value d" by (simp add: update_conv')
          with cell_value_truthy_or_empty [of d] show ?thesis by simp
        next
          case False
          with v 2 have "map_of r k = Some v" by (simp add: update_conv')
          with Cons.prems(2) show ?thesis by (simp add: recorded_ok_def)
        qed
      qed
    qed
  qed
  with Cons.IH [OF l] show ?case by simp
qed

lemma title_to_field_comp_ran:
  "title_to_field_comp m items = Inr t \<Longrightarrow> ran t \<subseteq> ran m \<union> fst ` set items"
proof (induction items arbitrary: m)
  case Nil
  then show ?case by simp
next
  case (Cons kv items)
  obtain k v where kv: "kv = (k, v)" by (cases kv)
  from Cons.prems kv obtain key where "dict_key v = Inr key"
    and l: "title_to_field_comp (m(key \<mapsto> k)) items = Inr t"
    by (auto split: sum.splits)
  have "ran (m(key \<mapsto> k)) \<subseteq> ran m \<union> {k}"
    by (auto simp: ran_def)
  moreover from Cons.IH [OF l] have "ran t \<subseteq> ran (m(key \<mapsto> k)) \<union> fst ` set items" .
  moreover from kv have "fst ` set (kv # items) = {k} \<union> fst ` set items" by simp
  ultimately show ?case by blast
qed

lemma title_to_field_ran:
  assumes "title_to_field col_map = Inr t"
  shows "\<exists>field_map. col_map = JObj field_map \<and> ran t \<subseteq> fst ` set field_map"
proof (cases col_map)
  case (JObj field_map)
  with assms have "title_to_field_comp Map.empty field_map = Inr t" by simp
  from title_to_field_comp_ran [OF this] JObj show ?thesis by simp
qed (use assms in simp_all)

lemma build_record_cells:
  assumes "build_record c t idx row = Inr r"
  shows "\<exists>cells. cells_loop c t [(''id'', JInt idx)] cells = Inr r"
  using assms by (auto simp: build_record_def split: sum.splits)

lemma build_record_has_name:
  assumes "build_record c t idx row = Inr r"
  shows "has_name r = name_present_nonempty r"
proof -
  from build_record_cells [OF assms] obtain cells
    where l: "cells_loop c t [(''id'', JInt idx)] cells = Inr r" ..
  have "recorded_ok [(''id'', JInt idx)] ''name''"
    by (simp add: recorded_ok_def)
  with l have "recorded_ok r ''name''"
    by (rule cells_loop_recorded_ok)
  then show ?thesis
    by (auto simp: recorded_ok_def has_name_def name_present_nonempty_def dict_get_def
        split: option.splits)
qed

lemma build_record_keys:
  assumes "build_record c t idx row = Inr r"
  shows "fst ` set r \<subseteq> insert ''id'' (ran t)"
proof -
  from build_record_cells [OF assms] obtain cells
    where l: "cells_loop c t [(''id'', JInt idx)] cells = Inr r" ..
  from cells_loop_keys [OF l] show ?thesis by simp
qed

lemma build_record_id:
  assumes "build_record c t idx row = Inr r" and "''id'' \<notin> ran t"
  shows "map_of r ''id'' = Some (JInt idx)"
proof -
  from build_record_cells [OF assms(1)] obtain cells
    where l: "cells_loop c t [(''id'', JInt idx)] cells = Inr r" ..
  from cells_loop_other_key [OF l assms(2)] show ?thesis by simp
qed

lemma rows_loop_records:
  "rows_loop c t idx rows = Inr ucs \<Longrightarrow>
   \<exists>records. length records = length rows \<and>
     (\<forall>i<length rows. build_record c t (idx + int i) (rows ! i) = Inr (records ! i)) \<and>
     ucs = filter has_name records"
proof (induction rows arbitrary: idx ucs)
  case Nil
  then show ?case by simp
next
  case (Cons row rows)
  from Cons.prems obtain r ucs' where b: "build_record c t idx row = Inr r"
    and l: "rows_loop c t (idx + 1) rows = Inr ucs'"
    and u: "ucs = (if has_name r then r # ucs' else ucs')"
    by (auto split: sum.splits)
  from Cons.IH [OF l] obtain records where n: "length records = length rows"
    and each: "\<forall>i<length rows. build_record c t (idx + 1 + int i) (rows ! i) = Inr (records ! i)"
    and f: "ucs' = filter has_name records"
    by blast
  have "\<forall>i<length (row # rows).
          build_record c t (idx + int i) ((row # rows) ! i) = Inr ((r # records) ! i)"
  proof (intro allI impI)
    fix i assume "i < length (row # rows)"
    then show "build_record c t (idx + int i) ((row # rows) ! i) = Inr ((r # records) ! i)"
      using b each by (cases i) (auto simp: algebra_simps)
  qed
  with n u f show ?case
    by (intro exI [of _ "r # records"]) auto
qed

lemma rows_loop_enumerate:
  assumes "rows_loop c t 1 rows = Inr ucs"
  shows "\<exists>records. length records = length rows \<and>
           (\<forall>i<length rows. build_record c t (1 + int i) (rows ! i) = Inr (records ! i)) \<and>
           map (\<lambda>(idx, row). build_record c t (int idx) row) (List.enumerate 1 rows) =
             map Inr records \<and>
           ucs = filter has_name records \<and>
           ucs = filter name_present_nonempty records"
proof -
  from rows_loop_records [OF assms] obtain records where n: "length records = length rows"
    and each: "\<forall>i<length rows. build_record c t (1 + int i) (rows ! i) = Inr (records ! i)"
    and f: "ucs = filter has_name records"
    by blast
  have e: "map (\<lambda>(idx, row). build_record c t (int idx) row) (List.enumerate 1 rows) =
             map Inr records"
    using n each by (auto simp: list_eq_iff_nth_eq nth_enumerate_eq)
  have "filter has_name records = filter name_present_nonempty records"
  proof (rule filter_cong [OF refl])
    fix r assume "r \<in> set records"
    then obtain i where "i < length records" "r = records ! i"
      by (auto simp: in_set_conv_nth)
    with n each have "build_record c t (1 + int i) (rows ! i) = Inr r" by simp
    then show "has_name r = name_present_nonempty r" by (rule build_record_has_name)
  qed
  with n each e f show ?thesis by auto
qed

lemma col_id_to_title_agree:
  "col_id_to_title_loop m cols = Inr c \<longleftrightarrow> col_id_to_title_comp m cols = Inr c"
  by (induction cols arbitrary: m) (auto split: sum.splits)

lemma col_id_to_title_files_agree:
  "col_id_to_title_server sheet = Inr c \<longleftrightarrow> col_id_to_title_vercel sheet = Inr c"
  by (simp add: col_id_to_title_server_def col_id_to_title_vercel_def col_id_to_title_agree
      split: sum.splits)

lemma transform_agree:
  "transform_server sheet col_map = Inr out \<longleftrightarrow> transform_vercel sheet col_map = Inr out"
proof -
  have "transform_server sheet col_map = Inr out \<longleftrightarrow>
        (\<exists>c. col_id_to_title_server sheet = Inr c \<and> parse_rows c sheet col_map = Inr out)"
    by (auto simp: transform_server_def split: sum.splits)
  also have "\<dots> \<longleftrightarrow>
        (\<exists>c. col_id_to_title_vercel sheet = Inr c \<and> parse_rows c sheet col_map = Inr out)"
    by (simp add: col_id_to_title_files_agree)
  also have "\<dots> \<longleftrightarrow> transform_vercel sheet col_map = Inr out"
    by (auto simp: transform_vercel_def split: sum.splits)
  finally show ?thesis .
qed

lemma returned_dict_use_cases:
  "py_getitem (returned_dict title ucs) ''use_cases'' = Inr (JArr (map JObj ucs))"
  by (simp add: returned_dict_def)

lemma returned_dict_summary:
  "py_getitem (returned_dict title ucs) ''summary'' = Inr (JObj (summary ucs))"
  by (simp add: returned_dict_def)

lemma run_tables:
  assumes "transform_server sheet col_map = Inr out \<or> transform_vercel sheet col_map = Inr out"
  shows "\<exists>c t rows use_cases title.
           col_id_to_title_server sheet = Inr c \<and> col_id_to_title_vercel sheet = Inr c \<and>
           title_to_field col_map = Inr t \<and> sheet_rows sheet = Inr rows \<and>
           rows_loop c t 1 rows = Inr use_cases \<and> out = returned_dict title use_cases"
proof -
  from assms have r: "transform_server sheet col_map = Inr out"
    by (simp add: transform_agree)
  then obtain c where c: "col_id_to_title_server sheet = Inr c"
    and p: "parse_rows c sheet col_map = Inr out"
    by (auto simp: transform_server_def split: sum.splits)
  from c have c': "col_id_to_title_vercel sheet = Inr c"
    by (simp add: col_id_to_title_files_agree)
  from p obtain t rows ucs title where "title_to_field col_map = Inr t"
    "sheet_rows sheet = Inr rows" "rows_loop c t 1 rows = Inr ucs"
    "out = returned_dict title ucs"
    by (auto simp: parse_rows_def split: sum.splits)
  with c c' show ?thesis by blast
qed

lemma scenario_server: "transform_server scenario_sheet scenario_col_map = Inr scenario_output"
  by (simp add: transform_server_def col_id_to_title_server_def parse_rows_def sheet_columns_def
      sheet_rows_def scenario_sheet_def scenario_col_map_def scenario_output_def
      build_record_def cell_field_def has_name_def dict_get_def cell_value_def py_or_def
      returned_dict_def summary_def statuses_def)

lemmas run_defs =
  transform_server_def transform_vercel_def col_id_to_title_server_def
  col_id_to_title_vercel_def parse_rows_def sheet_columns_def sheet_rows_def
  build_record_def cell_field_def has_name_def dict_get_def cell_value_def py_or_def
  returned_dict_def summary_def statuses_def

lemma scenario_vercel: "transform_vercel scenario_sheet scenario_col_map = Inr scenario_output"
  using scenario_server by (simp add: transform_agree)

lemma gap_server:
  "transform_server gap_sheet (JObj [(''name'', JStr ''Use Case''), (''status'', JStr ''Status'')]) =
     Inr gap_output"
  by (simp add: run_defs gap_sheet_def gap_output_def)

lemma reorder_server: "transform_server reorder_sheet reorder_col_map = Inr reorder_output"
  by (simp add: run_defs reorder_sheet_def reorder_col_map_def reorder_output_def)

lemma override_server: "transform_server override_sheet override_col_map = Inr override_output"
  by (simp add: run_defs override_sheet_def override_col_map_def override_output_def)

lemma count_list_map_filter:
  "count_list (map f xs) y = length (filter (\<lambda>x. f x = y) xs)"
  by (induction xs) auto

lemma positions_of_filter:
  assumes "length records = n"
  shows "filter P records =
         map (\<lambda>k. records ! (k - 1)) (filter (\<lambda>k. P (records ! (k - 1))) [1..<Suc n])"
proof -
  have "records = map (\<lambda>k. records ! (k - 1)) [1..<Suc n]"
    using assms by (simp add: list_eq_iff_nth_eq del: upt_Suc)
  then have "filter P records = filter P (map (\<lambda>k. records ! (k - 1)) [1..<Suc n])"
    by simp
  also have "\<dots> = map (\<lambda>k. records ! (k - 1)) (filter (P \<circ> (\<lambda>k. records ! (k - 1))) [1..<Suc n])"
    by (rule filter_map)
  finally show ?thesis by (simp add: comp_def)
qed

lemma rows_loop_ids:
  assumes l: "rows_loop c t 1 rows = Inr ucs" and no_id: "''id'' \<notin> ran t"
  shows "\<exists>records.
           map (\<lambda>(idx, row). build_record c t (int idx) row) (List.enumerate 1 rows) =
             map Inr records \<and>
           map (\<lambda>r. map_of r ''id'') records =
             map (\<lambda>k. Some (JInt (int k))) [1..<Suc (length rows)] \<and>
           ucs = map (\<lambda>k. records ! (k - 1))
                   (filter (\<lambda>k. has_name (records ! (k - 1))) [1..<Suc (length rows)]) \<and>
           map (\<lambda>r. map_of r ''id'') ucs =
             map (\<lambda>k. Some (JInt (int k)))
               (filter (\<lambda>k. has_name (records ! (k - 1))) [1..<Suc (length rows)])"
proof -
  from rows_loop_enumerate [OF l] obtain records where n: "length records = length rows"
    and each: "\<forall>i<length rows. build_record c t (1 + int i) (rows ! i) = Inr (records ! i)"
    and e: "map (\<lambda>(idx, row). build_record c t (int idx) row) (List.enumerate 1 rows) =
             map Inr records"
    and f: "ucs = filter has_name records"
    by blast
  have id_at: "map_of (records ! i) ''id'' = Some (JInt (1 + int i))" if "i < length rows" for i
    using each that no_id by (auto intro: build_record_id)
  have ids: "map (\<lambda>r. map_of r ''id'') records =
             map (\<lambda>k. Some (JInt (int k))) [1..<Suc (length rows)]"
  proof (rule nth_equalityI)
    show "length (map (\<lambda>r. map_of r ''id'') records) =
          length (map (\<lambda>k. Some (JInt (int k))) [1..<Suc (length rows)])"
      by (simp add: n del: upt_Suc)
  next
    fix i assume "i < length (map (\<lambda>r. map_of r ''id'') records)"
    then have i: "i < length rows" by (simp add: n)
    then have "[1..<Suc (length rows)] ! i = 1 + i"
      by (simp del: upt_Suc)
    moreover have "length [1..<Suc (length rows)] = length rows"
      by (simp del: upt_Suc)
    ultimately have "map (\<lambda>k. Some (JInt (int k))) [1..<Suc (length rows)] ! i =
        Some (JInt (1 + int i))"
      using i by (simp only: nth_map of_nat_add of_nat_1)
    moreover have "map (\<lambda>r. map_of r ''id'') records ! i = map_of (records ! i) ''id''"
      using i n by simp
    ultimately show "map (\<lambda>r. map_of r ''id'') records ! i =
        map (\<lambda>k. Some (JInt (int k))) [1..<Suc (length rows)] ! i"
      using id_at [OF i] by simp
  qed
  let ?kept = "filter (\<lambda>k. has_name (records ! (k - 1))) [1..<Suc (length rows)]"
  have u: "ucs = map (\<lambda>k. records ! (k - 1)) ?kept"
    unfolding f by (rule positions_of_filter [OF n])
  have "map (\<lambda>r. map_of r ''id'') (map (\<lambda>k. records ! (k - 1)) ?kept) =
        map (\<lambda>k. Some (JInt (int k))) ?kept"
  proof (simp only: map_map comp_def, rule map_cong [OF refl])
    fix k assume "k \<in> set ?kept"
    then have k: "1 \<le> k" "k - 1 < length rows" by (auto simp del: upt_Suc)
    from id_at [OF k(2)] k(1) show "map_of (records ! (k - 1)) ''id'' = Some (JInt (int k))"
      by (simp add: of_nat_diff)
  qed
  with u have "map (\<lambda>r. map_of r ''id'') ucs = map (\<lambda>k. Some (JInt (int k))) ?kept"
    by simp
  with e ids u show ?thesis by blast
qed

lemma rows_loop_record_ids:
  assumes l: "rows_loop c t 1 rows = Inr ucs" and no_id: "''id'' \<notin> ran t"
  shows "\<exists>records.
           map (\<lambda>(idx, row). build_record c t (int idx) row) (List.enumerate 1 rows) =
             map Inr records \<and>
           map (\<lambda>r. map_of r ''id'') records =
             map (\<lambda>k. Some (JInt (int k))) [1..<Suc (length rows)]"
  using rows_loop_ids [OF assms] by blast

lemma rows_loop_keys:
  assumes l: "rows_loop c t 1 rows = Inr ucs" and uc: "uc \<in> set ucs"
  shows "fst ` set uc \<subseteq> insert ''id'' (ran t)"
proof -
  from rows_loop_enumerate [OF l] obtain records where n: "length records = length rows"
    and each: "\<forall>i<length rows. build_record c t (1 + int i) (rows ! i) = Inr (records ! i)"
    and f: "ucs = filter has_name records"
    by blast
  from uc f have "uc \<in> set records" by simp
  then obtain i where "i < length records" "uc = records ! i"
    by (auto simp: in_set_conv_nth)
  with n each have "build_record c t (1 + int i) (rows ! i) = Inr uc" by simp
  then show ?thesis by (rule build_record_keys)
qed

lemma col_loop_untouched:
  "col_id_to_title_loop m zs = Inr c \<Longrightarrow> list_all (\<lambda>z. column_key z \<noteq> Inr k) zs \<Longrightarrow>
   c k = m k"
  by (induction zs arbitrary: m) (auto simp: column_key_def split: sum.splits)

lemma col_loop_last:
  "col_id_to_title_loop m (xs @ col # zs) = Inr c \<Longrightarrow> column_key col = Inr k \<Longrightarrow>
   py_getitem col ''title'' = Inr title \<Longrightarrow> list_all (\<lambda>z. column_key z \<noteq> Inr k) zs \<Longrightarrow>
   c k = Some title"
proof (induction xs arbitrary: m)
  case Nil
  from Nil(1,2,3) have "col_id_to_title_loop (m(k \<mapsto> title)) zs = Inr c"
    by (auto simp: column_key_def split: sum.splits)
  from col_loop_untouched [OF this Nil(4)] show ?case by simp
next
  case (Cons x xs)
  from Cons.prems(1) obtain m' where "col_id_to_title_loop m' (xs @ col # zs) = Inr c"
    by (auto split: sum.splits)
  from Cons.IH [OF this Cons.prems(2,3,4)] show ?case .
qed

lemma t2f_untouched:
  "title_to_field_comp m ws = Inr t \<Longrightarrow> list_all (\<lambda>(f, v). dict_key v \<noteq> Inr k) ws \<Longrightarrow>
   t k = m k"
  by (induction ws arbitrary: m) (auto split: sum.splits)

lemma t2f_last:
  "title_to_field_comp m (ys @ (field, ttl) # ws) = Inr t \<Longrightarrow> dict_key ttl = Inr k \<Longrightarrow>
   list_all (\<lambda>(f, v). dict_key v \<noteq> Inr k) ws \<Longrightarrow> t k = Some field"
proof (induction ys arbitrary: m)
  case Nil
  from Nil(1,2) have "title_to_field_comp (m(k \<mapsto> field)) ws = Inr t"
    by simp
  from t2f_untouched [OF this Nil(3)] show ?case by simp
next
  case (Cons y ys)
  obtain f v where y: "y = (f, v)" by (cases y)
  from Cons.prems(1) y obtain m' where "title_to_field_comp m' (ys @ (field, ttl) # ws) = Inr t"
    by (auto split: sum.splits)
  from Cons.IH [OF this Cons.prems(2,3)] show ?case .
qed

section \<open>Exceptions of the transformation\<close>



















section \<open>Properties of the handlers\<close>
















section \<open>The end-to-end scenario\<close>

text \<open>
  C1. On the scenario of the specification (two columns, a row for "Chatbot" in
  production and a row whose name cell is the empty string) both files return one use
  case with id 1 and the summary 1, 1, 0, 0; the second row is dropped.
\<close>

theorem scenario_end_to_end:
  "transform_server scenario_sheet scenario_col_map = Inr scenario_output \<and>
   transform_vercel scenario_sheet scenario_col_map = Inr scenario_output"
  using scenario_server scenario_vercel by (rule conjI)

section \<open>Cell values\<close>

text \<open>
  C3. A cell whose column resolves to a non-empty field name records, under that
  field, displayValue when it is present and non-empty, otherwise value when it is
  present and non-empty, otherwise the empty string. With value "A" and displayValue
  "B" that is "B"; with displayValue "" and value "A" it is "A".
\<close>

theorem cell_value_precedence:
  assumes "cell_field c t cell = Inr (Some field)" and "field \<noteq> []"
  shows "process_cell c t record (JObj cell) = Inr (AList.update field (cell_value cell) record) \<and>
         map_of (AList.update field (cell_value cell) record) field =
           Some (spec_cell_value (map_of cell ''displayValue'') (map_of cell ''value'')) \<and>
         spec_cell_value (Some (JStr ''B'')) (Some (JStr ''A'')) = JStr ''B'' \<and>
         spec_cell_value (Some (JStr [])) (Some (JStr ''A'')) = JStr ''A''"
  using assms by (simp add: update_conv' cell_value_spec spec_cell_value_def)

theorem cell_value_precedence_witness:
  "cell_field precedence_c precedence_t
     [(''columnId'', JInt 1), (''value'', JStr ''A''), (''displayValue'', JStr ''B'')] =
     Inr (Some ''name'') \<and>
   process_cell precedence_c precedence_t [(''id'', JInt 1)]
     (JObj [(''columnId'', JInt 1), (''value'', JStr ''A''), (''displayValue'', JStr ''B'')]) =
     Inr [(''id'', JInt 1), (''name'', JStr ''B'')] \<and>
   process_cell precedence_c precedence_t [(''id'', JInt 1)]
     (JObj [(''columnId'', JInt 1), (''displayValue'', JStr []), (''value'', JStr ''A'')]) =
     Inr [(''id'', JInt 1), (''name'', JStr ''A'')]"
proof -
  have f1: "cell_field precedence_c precedence_t
     [(''columnId'', JInt 1), (''value'', JStr ''A''), (''displayValue'', JStr ''B'')] =
     Inr (Some ''name'')"
    by (simp add: cell_field_def precedence_c_def precedence_t_def dict_get_def)
  have f2: "cell_field precedence_c precedence_t
     [(''columnId'', JInt 1), (''displayValue'', JStr []), (''value'', JStr ''A'')] =
     Inr (Some ''name'')"
    by (simp add: cell_field_def precedence_c_def precedence_t_def dict_get_def)
  have n: "''name'' \<noteq> []" by simp
  from cell_value_precedence [OF f1 n, of "[(''id'', JInt 1)]"]
       cell_value_precedence [OF f2 n, of "[(''id'', JInt 1)]"] f1
  show ?thesis
    by (simp add: cell_value_def py_or_def dict_get_def)
qed

section \<open>The name filter\<close>

text \<open>
  C4. In a run that returns, the output holds, in order, exactly those of the rows'
  records whose name is present and not the empty string; so every record of the
  output has a non-empty name.
\<close>

theorem name_filter:
  assumes "transform_server sheet col_map = Inr out \<or> transform_vercel sheet col_map = Inr out"
  shows "\<exists>c t rows records.
           col_id_to_title_server sheet = Inr c \<and> col_id_to_title_vercel sheet = Inr c \<and>
           title_to_field col_map = Inr t \<and> sheet_rows sheet = Inr rows \<and>
           map (\<lambda>(idx, row). build_record c t (int idx) row) (List.enumerate 1 rows) =
             map Inr records \<and>
           py_getitem out ''use_cases'' =
             Inr (JArr (map JObj (filter name_present_nonempty records))) \<and>
           filter has_name records = filter name_present_nonempty records \<and>
           list_all name_present_nonempty (filter name_present_nonempty records)"
proof -
  from run_tables [OF assms] obtain c t rows ucs title where
    tabs: "col_id_to_title_server sheet = Inr c" "col_id_to_title_vercel sheet = Inr c"
      "title_to_field col_map = Inr t" "sheet_rows sheet = Inr rows"
    and l: "rows_loop c t 1 rows = Inr ucs" and out: "out = returned_dict title ucs"
    by blast
  from rows_loop_enumerate [OF l] obtain records where
    e: "map (\<lambda>(idx, row). build_record c t (int idx) row) (List.enumerate 1 rows) =
          map Inr records"
    and f: "ucs = filter has_name records" "ucs = filter name_present_nonempty records"
    by blast
  have "py_getitem out ''use_cases'' =
          Inr (JArr (map JObj (filter name_present_nonempty records)))"
    using out f(2) by (simp add: returned_dict_use_cases)
  moreover have "list_all name_present_nonempty (filter name_present_nonempty records)"
    by (simp add: list_all_iff)
  moreover from f have "filter has_name records = filter name_present_nonempty records"
    by simp
  ultimately show ?thesis using tabs e by blast
qed

theorem name_filter_witness:
  "(transform_server scenario_sheet scenario_col_map = Inr scenario_output \<or>
    transform_vercel scenario_sheet scenario_col_map = Inr scenario_output) \<and>
   (\<exists>c t rows records.
      col_id_to_title_server scenario_sheet = Inr c \<and>
      col_id_to_title_vercel scenario_sheet = Inr c \<and>
      title_to_field scenario_col_map = Inr t \<and> sheet_rows scenario_sheet = Inr rows \<and>
      map (\<lambda>(idx, row). build_record c t (int idx) row) (List.enumerate 1 rows) =
        map Inr records \<and>
      py_getitem scenario_output ''use_cases'' =
        Inr (JArr (map JObj (filter name_present_nonempty records))) \<and>
      filter has_name records = filter name_present_nonempty records \<and>
      list_all name_present_nonempty (filter name_present_nonempty records))"
proof (rule conjI)
  show h: "transform_server scenario_sheet scenario_col_map = Inr scenario_output \<or>
    transform_vercel scenario_sheet scenario_col_map = Inr scenario_output"
    by (rule disjI1) (rule scenario_server)
  show "\<exists>c t rows records.
      col_id_to_title_server scenario_sheet = Inr c \<and>
      col_id_to_title_vercel scenario_sheet = Inr c \<and>
      title_to_field scenario_col_map = Inr t \<and> sheet_rows scenario_sheet = Inr rows \<and>
      map (\<lambda>(idx, row). build_record c t (int idx) row) (List.enumerate 1 rows) =
        map Inr records \<and>
      py_getitem scenario_output ''use_cases'' =
        Inr (JArr (map JObj (filter name_present_nonempty records))) \<and>
      filter has_name records = filter name_present_nonempty records \<and>
      list_all name_present_nonempty (filter name_present_nonempty records)"
    by (rule name_filter [OF h])
qed


section \<open>The summary\<close>

text \<open>
  C5. In a run that returns, total_initiatives is the length of use_cases, and
  in_production, poc_done and poc_in_progress count the retained records whose status
  (the empty string when absent) equals "In Production", "POC Done" and
  "POC In Progress"; a status in another letter case is not counted.
\<close>

theorem summary_counts:
  assumes "transform_server sheet col_map = Inr out \<or> transform_vercel sheet col_map = Inr out"
  shows "\<exists>use_cases.
           py_getitem out ''use_cases'' = Inr (JArr (map JObj use_cases)) \<and>
           py_getitem out ''summary'' =
             Inr (JObj
               [(''total_initiatives'', JInt (int (length use_cases))),
                (''in_production'',
                   JInt (int (length (filter
                     (\<lambda>uc. (case map_of uc ''status'' of None \<Rightarrow> JStr [] | Some v \<Rightarrow> v) =
                        JStr ''In Production'') use_cases)))),
                (''poc_done'',
                   JInt (int (length (filter
                     (\<lambda>uc. (case map_of uc ''status'' of None \<Rightarrow> JStr [] | Some v \<Rightarrow> v) =
                        JStr ''POC Done'') use_cases)))),
                (''poc_in_progress'',
                   JInt (int (length (filter
                     (\<lambda>uc. (case map_of uc ''status'' of None \<Rightarrow> JStr [] | Some v \<Rightarrow> v) =
                        JStr ''POC In Progress'') use_cases))))]) \<and>
         summary [[(''id'', JInt 1), (''name'', JStr ''A''), (''status'', JStr ''in production'')]] =
           [(''total_initiatives'', JInt 1), (''in_production'', JInt 0),
            (''poc_done'', JInt 0), (''poc_in_progress'', JInt 0)]"
proof -
  from run_tables [OF assms] obtain title ucs where out: "out = returned_dict title ucs"
    by blast
  have s: "py_getitem out ''summary'' = Inr (JObj (summary ucs))"
    using out by (simp add: returned_dict_summary)
  have u: "py_getitem out ''use_cases'' = Inr (JArr (map JObj ucs))"
    using out by (simp add: returned_dict_use_cases)
  have c: "summary [[(''id'', JInt 1), (''name'', JStr ''A''), (''status'', JStr ''in production'')]] =
           [(''total_initiatives'', JInt 1), (''in_production'', JInt 0),
            (''poc_done'', JInt 0), (''poc_in_progress'', JInt 0)]"
    by (simp add: summary_def statuses_def dict_get_def)
  show ?thesis
    by (rule exI [of _ ucs])
       (simp add: s u c summary_def statuses_def count_list_map_filter dict_get_def)
qed

theorem summary_counts_witness:
  "(transform_server scenario_sheet scenario_col_map = Inr scenario_output \<or>
    transform_vercel scenario_sheet scenario_col_map = Inr scenario_output) \<and>
   py_getitem scenario_output ''summary'' =
     Inr (JObj [(''total_initiatives'', JInt 1), (''in_production'', JInt 1),
                (''poc_done'', JInt 0), (''poc_in_progress'', JInt 0)])"
proof -
  have h: "transform_server scenario_sheet scenario_col_map = Inr scenario_output \<or>
    transform_vercel scenario_sheet scenario_col_map = Inr scenario_output"
    by (rule disjI1) (rule scenario_server)
  from summary_counts [OF h] obtain ucs where
    u: "py_getitem scenario_output ''use_cases'' = Inr (JArr (map JObj ucs))"
    and s: "py_getitem scenario_output ''summary'' =
             Inr (JObj
               [(''total_initiatives'', JInt (int (length ucs))),
                (''in_production'',
                   JInt (int (length (filter
                     (\<lambda>uc. (case map_of uc ''status'' of None \<Rightarrow> JStr [] | Some v \<Rightarrow> v) =
                        JStr ''In Production'') ucs)))),
                (''poc_done'',
                   JInt (int (length (filter
                     (\<lambda>uc. (case map_of uc ''status'' of None \<Rightarrow> JStr [] | Some v \<Rightarrow> v) =
                        JStr ''POC Done'') ucs)))),
                (''poc_in_progress'',
                   JInt (int (length (filter
                     (\<lambda>uc. (case map_of uc ''status'' of None \<Rightarrow> JStr [] | Some v \<Rightarrow> v) =
                        JStr ''POC In Progress'') ucs))))])"
    by blast
  from u have "map JObj ucs =
      [JObj [(''id'', JInt 1), (''name'', JStr ''Chatbot''), (''status'', JStr ''In Production'')]]"
    by (simp add: scenario_output_def)
  then have "ucs =
      [[(''id'', JInt 1), (''name'', JStr ''Chatbot''), (''status'', JStr ''In Production'')]]"
    by (auto simp: map_eq_Cons_conv)
  with s h show ?thesis by simp
qed

section \<open>Record ids and order\<close>

text \<open>
  C6, as stated, fails: with \<^verbatim>\<open>id\<close> as a key of the column map, the two rows of the sheet
  below come out with the ids 5 and 3, neither their positions nor increasing.
\<close>

theorem ids_not_positions_counterexample:
  "transform_server reorder_sheet reorder_col_map = Inr reorder_output \<and>
   transform_vercel reorder_sheet reorder_col_map = Inr reorder_output \<and>
   py_getitem reorder_output ''use_cases'' =
     Inr (JArr [JObj [(''id'', JInt 5), (''name'', JStr ''A'')],
                JObj [(''id'', JInt 3), (''name'', JStr ''B'')]])"
  using reorder_server by (simp add: transform_agree [symmetric] reorder_output_def)

text \<open>
  C6, amended. When \<^verbatim>\<open>id\<close> is not a key of the column map: the record of the row at
  position k (counted from 1 over all rows) has the id k; the output holds, in row
  order, the records of the positions whose record has a name; so the ids of the
  output are those positions, strictly increasing, with gaps where a row was dropped.
\<close>

theorem ids_are_row_positions:
  assumes run: "transform_server sheet (JObj field_map) = Inr out \<or>
                transform_vercel sheet (JObj field_map) = Inr out"
    and no_id: "''id'' \<notin> fst ` set field_map"
  shows "\<exists>c t rows records kept.
           col_id_to_title_server sheet = Inr c \<and> col_id_to_title_vercel sheet = Inr c \<and>
           title_to_field (JObj field_map) = Inr t \<and> sheet_rows sheet = Inr rows \<and>
           map (\<lambda>(idx, row). build_record c t (int idx) row) (List.enumerate 1 rows) =
             map Inr records \<and>
           map (\<lambda>r. map_of r ''id'') records =
             map (\<lambda>k. Some (JInt (int k))) [1..<Suc (length rows)] \<and>
           kept = filter (\<lambda>k. has_name (records ! (k - 1))) [1..<Suc (length rows)] \<and>
           py_getitem out ''use_cases'' =
             Inr (JArr (map JObj (map (\<lambda>k. records ! (k - 1)) kept))) \<and>
           map (\<lambda>r. map_of r ''id'') (map (\<lambda>k. records ! (k - 1)) kept) =
             map (\<lambda>k. Some (JInt (int k))) kept \<and>
           sorted_wrt (<) kept"
proof -
  from run_tables [OF run] obtain c t rows ucs title where
    tabs: "col_id_to_title_server sheet = Inr c" "col_id_to_title_vercel sheet = Inr c"
      "title_to_field (JObj field_map) = Inr t" "sheet_rows sheet = Inr rows"
    and l: "rows_loop c t 1 rows = Inr ucs" and out: "out = returned_dict title ucs"
    by blast
  from title_to_field_ran [OF tabs(3)] no_id have "''id'' \<notin> ran t" by auto
  from rows_loop_ids [OF l this] obtain records where
    e: "map (\<lambda>(idx, row). build_record c t (int idx) row) (List.enumerate 1 rows) =
          map Inr records"
    and ids: "map (\<lambda>r. map_of r ''id'') records =
          map (\<lambda>k. Some (JInt (int k))) [1..<Suc (length rows)]"
    and u: "ucs = map (\<lambda>k. records ! (k - 1))
              (filter (\<lambda>k. has_name (records ! (k - 1))) [1..<Suc (length rows)])"
    and uids: "map (\<lambda>r. map_of r ''id'') ucs =
          map (\<lambda>k. Some (JInt (int k)))
            (filter (\<lambda>k. has_name (records ! (k - 1))) [1..<Suc (length rows)])"
    by blast
  let ?kept = "filter (\<lambda>k. has_name (records ! (k - 1))) [1..<Suc (length rows)]"
  have g: "py_getitem out ''use_cases'' =
             Inr (JArr (map JObj (map (\<lambda>k. records ! (k - 1)) ?kept)))"
    using out u by (simp only: returned_dict_use_cases)
  have s: "sorted_wrt (<) ?kept"
    by (rule sorted_wrt_filter) (rule sorted_wrt_upt)
  from uids u have uids': "map (\<lambda>r. map_of r ''id'') (map (\<lambda>k. records ! (k - 1)) ?kept) =
          map (\<lambda>k. Some (JInt (int k))) ?kept"
    by simp
  from tabs e ids g uids' s show ?thesis by blast
qed

theorem ids_are_row_positions_witness:
  "(transform_server gap_sheet (JObj [(''name'', JStr ''Use Case''), (''status'', JStr ''Status'')]) =
      Inr gap_output \<or>
    transform_vercel gap_sheet (JObj [(''name'', JStr ''Use Case''), (''status'', JStr ''Status'')]) =
      Inr gap_output) \<and>
   ''id'' \<notin> fst ` set [(''name'', JStr ''Use Case''), (''status'', JStr ''Status'')] \<and>
   (\<exists>c t rows records kept.
      col_id_to_title_server gap_sheet = Inr c \<and>
      col_id_to_title_vercel gap_sheet = Inr c \<and>
      title_to_field (JObj [(''name'', JStr ''Use Case''), (''status'', JStr ''Status'')]) = Inr t \<and>
      sheet_rows gap_sheet = Inr rows \<and>
      map (\<lambda>(idx, row). build_record c t (int idx) row) (List.enumerate 1 rows) =
        map Inr records \<and>
      map (\<lambda>r. map_of r ''id'') records =
        map (\<lambda>k. Some (JInt (int k))) [1..<Suc (length rows)] \<and>
      kept = filter (\<lambda>k. has_name (records ! (k - 1))) [1..<Suc (length rows)] \<and>
      py_getitem gap_output ''use_cases'' =
        Inr (JArr (map JObj (map (\<lambda>k. records ! (k - 1)) kept))) \<and>
      map (\<lambda>r. map_of r ''id'') (map (\<lambda>k. records ! (k - 1)) kept) =
        map (\<lambda>k. Some (JInt (int k))) kept \<and>
      sorted_wrt (<) kept) \<and>
   py_getitem gap_output ''use_cases'' =
     Inr (JArr [JObj [(''id'', JInt 2), (''name'', JStr ''Chatbot'')]])"
proof (intro conjI)
  show "py_getitem gap_output ''use_cases'' =
     Inr (JArr [JObj [(''id'', JInt 2), (''name'', JStr ''Chatbot'')]])"
    by (simp add: gap_output_def)
  show h: "transform_server gap_sheet (JObj [(''name'', JStr ''Use Case''), (''status'', JStr ''Status'')]) =
      Inr gap_output \<or>
    transform_vercel gap_sheet (JObj [(''name'', JStr ''Use Case''), (''status'', JStr ''Status'')]) =
      Inr gap_output"
    by (rule disjI1) (rule gap_server)
  show n: "''id'' \<notin> fst ` set [(''name'', JStr ''Use Case''), (''status'', JStr ''Status'')]"
    by simp
  show "\<exists>c t rows records kept.
      col_id_to_title_server gap_sheet = Inr c \<and>
      col_id_to_title_vercel gap_sheet = Inr c \<and>
      title_to_field (JObj [(''name'', JStr ''Use Case''), (''status'', JStr ''Status'')]) = Inr t \<and>
      sheet_rows gap_sheet = Inr rows \<and>
      map (\<lambda>(idx, row). build_record c t (int idx) row) (List.enumerate 1 rows) =
        map Inr records \<and>
      map (\<lambda>r. map_of r ''id'') records =
        map (\<lambda>k. Some (JInt (int k))) [1..<Suc (length rows)] \<and>
      kept = filter (\<lambda>k. has_name (records ! (k - 1))) [1..<Suc (length rows)] \<and>
      py_getitem gap_output ''use_cases'' =
        Inr (JArr (map JObj (map (\<lambda>k. records ! (k - 1)) kept))) \<and>
      map (\<lambda>r. map_of r ''id'') (map (\<lambda>k. records ! (k - 1)) kept) =
        map (\<lambda>k. Some (JInt (int k))) kept \<and>
      sorted_wrt (<) kept"
    by (rule ids_are_row_positions [OF h n])
qed

section \<open>Field names of the records\<close>

text \<open>
  C9. In a run that returns, every key of every record of the output is \<^verbatim>\<open>id\<close> or a
  key of the column map.
\<close>

theorem record_keys_in_field_map:
  assumes "transform_server sheet col_map = Inr out \<or> transform_vercel sheet col_map = Inr out"
  shows "\<exists>field_map use_cases.
           col_map = JObj field_map \<and>
           py_getitem out ''use_cases'' = Inr (JArr (map JObj use_cases)) \<and>
           list_all (\<lambda>uc. list_all (\<lambda>k. k = ''id'' \<or> k \<in> fst ` set field_map) (map fst uc))
             use_cases"
proof -
  from run_tables [OF assms] obtain c t rows ucs title where
    t: "title_to_field col_map = Inr t"
    and l: "rows_loop c t 1 rows = Inr ucs" and out: "out = returned_dict title ucs"
    by blast
  from title_to_field_ran [OF t] obtain field_map where cm: "col_map = JObj field_map"
    and r: "ran t \<subseteq> fst ` set field_map"
    by blast
  have "list_all (\<lambda>uc. list_all (\<lambda>k. k = ''id'' \<or> k \<in> fst ` set field_map) (map fst uc)) ucs"
    unfolding list_all_iff
  proof (intro ballI)
    fix uc k assume "uc \<in> set ucs" and k: "k \<in> set (map fst uc)"
    from rows_loop_keys [OF l this(1)] k have "k \<in> insert ''id'' (ran t)" by auto
    with r show "k = ''id'' \<or> k \<in> fst ` set field_map" by blast
  qed
  moreover have "py_getitem out ''use_cases'' = Inr (JArr (map JObj ucs))"
    using out by (simp add: returned_dict_use_cases)
  ultimately show ?thesis using cm by blast
qed

theorem record_keys_in_field_map_witness:
  "(transform_server scenario_sheet scenario_col_map = Inr scenario_output \<or>
    transform_vercel scenario_sheet scenario_col_map = Inr scenario_output) \<and>
   (\<exists>field_map use_cases.
      scenario_col_map = JObj field_map \<and>
      py_getitem scenario_output ''use_cases'' = Inr (JArr (map JObj use_cases)) \<and>
      list_all (\<lambda>uc. list_all (\<lambda>k. k = ''id'' \<or> k \<in> fst ` set field_map) (map fst uc))
        use_cases)"
proof (rule conjI)
  show h: "transform_server scenario_sheet scenario_col_map = Inr scenario_output \<or>
    transform_vercel scenario_sheet scenario_col_map = Inr scenario_output"
    by (rule disjI1) (rule scenario_server)
  show "\<exists>field_map use_cases.
      scenario_col_map = JObj field_map \<and>
      py_getitem scenario_output ''use_cases'' = Inr (JArr (map JObj use_cases)) \<and>
      list_all (\<lambda>uc. list_all (\<lambda>k. k = ''id'' \<or> k \<in> fst ` set field_map) (map fst uc))
        use_cases"
    by (rule record_keys_in_field_map [OF h])
qed

section \<open>A column map with the key id\<close>

text \<open>
  C10. A cell that resolves to the field \<^verbatim>\<open>id\<close> replaces the positional id of its record
  by the cell's value, before the name test and the summary: with the column map
  \<^verbatim>\<open>{"id": "Ref", "name": "Use Case"}\<close> the only row comes out with the id "X7", which
  is neither 1 nor an integer. When \<^verbatim>\<open>id\<close> is not a key of the column map, the record of
  the row at position k has the id k.
\<close>

theorem id_field_overrides_position:
  assumes run: "transform_server sheet (JObj field_map) = Inr out \<or>
                transform_vercel sheet (JObj field_map) = Inr out"
    and no_id: "''id'' \<notin> fst ` set field_map"
  shows "(\<exists>c t rows records.
            col_id_to_title_server sheet = Inr c \<and> col_id_to_title_vercel sheet = Inr c \<and>
            title_to_field (JObj field_map) = Inr t \<and> sheet_rows sheet = Inr rows \<and>
            map (\<lambda>(idx, row). build_record c t (int idx) row) (List.enumerate 1 rows) =
              map Inr records \<and>
            map (\<lambda>r. map_of r ''id'') records =
              map (\<lambda>k. Some (JInt (int k))) [1..<Suc (length rows)]) \<and>
         (cell_field c' t' cell = Inr (Some ''id'') \<longrightarrow>
            process_cell c' t' [(''id'', JInt idx)] (JObj cell) =
              Inr [(''id'', cell_value cell)]) \<and>
         transform_server override_sheet override_col_map = Inr override_output \<and>
         transform_vercel override_sheet override_col_map = Inr override_output \<and>
         py_getitem override_output ''use_cases'' =
           Inr (JArr [JObj [(''id'', JStr ''X7''), (''name'', JStr ''Chatbot'')]])"
proof -
  from run_tables [OF run] obtain c t rows ucs title where
    tabs: "col_id_to_title_server sheet = Inr c" "col_id_to_title_vercel sheet = Inr c"
      "title_to_field (JObj field_map) = Inr t" "sheet_rows sheet = Inr rows"
    and l: "rows_loop c t 1 rows = Inr ucs"
    by blast
  from title_to_field_ran [OF tabs(3)] no_id have "''id'' \<notin> ran t" by auto
  from rows_loop_record_ids [OF l this] tabs
  have a: "\<exists>c t rows records.
            col_id_to_title_server sheet = Inr c \<and> col_id_to_title_vercel sheet = Inr c \<and>
            title_to_field (JObj field_map) = Inr t \<and> sheet_rows sheet = Inr rows \<and>
            map (\<lambda>(idx, row). build_record c t (int idx) row) (List.enumerate 1 rows) =
              map Inr records \<and>
            map (\<lambda>r. map_of r ''id'') records =
              map (\<lambda>k. Some (JInt (int k))) [1..<Suc (length rows)]"
    by blast
  have b: "cell_field c' t' cell = Inr (Some ''id'') \<longrightarrow>
            process_cell c' t' [(''id'', JInt idx)] (JObj cell) =
              Inr [(''id'', cell_value cell)]"
    by simp
  have v: "transform_vercel override_sheet override_col_map = Inr override_output"
    using override_server by (simp add: transform_agree)
  have g: "py_getitem override_output ''use_cases'' =
           Inr (JArr [JObj [(''id'', JStr ''X7''), (''name'', JStr ''Chatbot'')]])"
    by (simp add: override_output_def)
  from a b override_server v g show ?thesis by (intro conjI)
qed

theorem id_field_overrides_position_witness:
  "(transform_server scenario_sheet (JObj [(''name'', JStr ''Use Case''), (''status'', JStr ''Status'')]) =
      Inr scenario_output \<or>
    transform_vercel scenario_sheet (JObj [(''name'', JStr ''Use Case''), (''status'', JStr ''Status'')]) =
      Inr scenario_output) \<and>
   ''id'' \<notin> fst ` set [(''name'', JStr ''Use Case''), (''status'', JStr ''Status'')] \<and>
   cell_field override_c override_t [(''columnId'', JInt 1), (''value'', JStr ''X7'')] =
     Inr (Some ''id'') \<and>
   process_cell override_c override_t [(''id'', JInt 1)]
     (JObj [(''columnId'', JInt 1), (''value'', JStr ''X7'')]) = Inr [(''id'', JStr ''X7'')]"
proof -
  have h: "transform_server scenario_sheet (JObj [(''name'', JStr ''Use Case''), (''status'', JStr ''Status'')]) =
      Inr scenario_output \<or>
    transform_vercel scenario_sheet (JObj [(''name'', JStr ''Use Case''), (''status'', JStr ''Status'')]) =
      Inr scenario_output"
    using scenario_server by (simp add: scenario_col_map_def)
  have n: "''id'' \<notin> fst ` set [(''name'', JStr ''Use Case''), (''status'', JStr ''Status'')]"
    by simp
  have f: "cell_field override_c override_t [(''columnId'', JInt 1), (''value'', JStr ''X7'')] =
     Inr (Some ''id'')"
    by (simp add: cell_field_def override_c_def override_t_def dict_get_def)
  from id_field_overrides_position [OF h n, of override_c override_t
      "[(''columnId'', JInt 1), (''value'', JStr ''X7'')]" 1] f
  have "process_cell override_c override_t [(''id'', JInt 1)]
     (JObj [(''columnId'', JInt 1), (''value'', JStr ''X7'')]) =
     Inr [(''id'', cell_value [(''columnId'', JInt 1), (''value'', JStr ''X7'')])]"
    by blast
  then have "process_cell override_c override_t [(''id'', JInt 1)]
     (JObj [(''columnId'', JInt 1), (''value'', JStr ''X7'')]) = Inr [(''id'', JStr ''X7'')]"
    by (simp add: cell_value_def py_or_def dict_get_def)
  with h n f show ?thesis by (intro conjI)
qed


section \<open>Collisions in the two lookups\<close>

text \<open>
  C7. Both tables are last-write-wins. In \<open>col_id_to_title\<close> the title under a column
  id is the title of the last column with that id, whatever columns with the same id
  came before; in \<open>title_to_field\<close> the field under a title is the last field of the
  column map with that title.
\<close>

theorem last_write_wins:
  "(sheet_columns sheet = Inr (xs @ col # zs) \<and>
    (col_id_to_title_server sheet = Inr c \<or> col_id_to_title_vercel sheet = Inr c) \<and>
    column_key col = Inr k \<and> py_getitem col ''title'' = Inr title \<and>
    list_all (\<lambda>z. column_key z \<noteq> Inr k) zs \<longrightarrow>
    c k = Some title) \<and>
   (title_to_field (JObj (ys @ (field, ttl) # ws)) = Inr t \<and> dict_key ttl = Inr k' \<and>
    list_all (\<lambda>(f, v). dict_key v \<noteq> Inr k') ws \<longrightarrow>
    t k' = Some field)"
proof (intro conjI impI)
  assume a: "sheet_columns sheet = Inr (xs @ col # zs) \<and>
    (col_id_to_title_server sheet = Inr c \<or> col_id_to_title_vercel sheet = Inr c) \<and>
    column_key col = Inr k \<and> py_getitem col ''title'' = Inr title \<and>
    list_all (\<lambda>z. column_key z \<noteq> Inr k) zs"
  then have "col_id_to_title_server sheet = Inr c"
    by (auto simp: col_id_to_title_files_agree)
  with a have "col_id_to_title_loop Map.empty (xs @ col # zs) = Inr c"
    by (simp add: col_id_to_title_server_def)
  with a show "c k = Some title"
    by (blast intro: col_loop_last)
next
  assume b: "title_to_field (JObj (ys @ (field, ttl) # ws)) = Inr t \<and> dict_key ttl = Inr k' \<and>
    list_all (\<lambda>(f, v). dict_key v \<noteq> Inr k') ws"
  then have "title_to_field_comp Map.empty (ys @ (field, ttl) # ws) = Inr t" by simp
  with b show "t k' = Some field"
    by (blast intro: t2f_last)
qed

theorem last_write_wins_witness:
  "(\<exists>c. col_id_to_title_server dup_sheet = Inr c \<and> col_id_to_title_vercel dup_sheet = Inr c \<and>
        c (JInt 1) = Some (JStr ''New'')) \<and>
   (\<exists>t. title_to_field dup_col_map = Inr t \<and> t (JStr ''Title'') = Some ''status'')"
proof -
  have cols: "sheet_columns dup_sheet =
      Inr ([JObj [(''id'', JInt 1), (''title'', JStr ''Old'')]] @
           JObj [(''id'', JInt 1), (''title'', JStr ''New'')] # [])"
    by (simp add: sheet_columns_def dup_sheet_def dict_get_def)
  obtain c where c: "col_id_to_title_server dup_sheet = Inr c"
    by (simp add: col_id_to_title_server_def sheet_columns_def dup_sheet_def dict_get_def)
  then have c': "col_id_to_title_vercel dup_sheet = Inr c"
    by (simp add: col_id_to_title_files_agree)
  obtain t where t: "title_to_field (JObj ([(''name'', JStr ''Title'')] @
      (''status'', JStr ''Title'') # [])) = Inr t"
    by simp
  have k: "column_key (JObj [(''id'', JInt 1), (''title'', JStr ''New'')]) = Inr (JInt 1)"
    by (simp add: column_key_def)
  from last_write_wins [of dup_sheet "[JObj [(''id'', JInt 1), (''title'', JStr ''Old'')]]"
      "JObj [(''id'', JInt 1), (''title'', JStr ''New'')]" "[]" c "JInt 1" "JStr ''New''"
      "[(''name'', JStr ''Title'')]" "''status''" "JStr ''Title''" "[]" t "JStr ''Title''"]
    cols c k t
  have "c (JInt 1) = Some (JStr ''New'')" and "t (JStr ''Title'') = Some ''status''"
    by simp_all
  with c c' t show ?thesis
    by (auto simp: dup_col_map_def)
qed

section \<open>The transformation on a store: frame and refinement\<close>

subsection \<open>What a run leaves in place\<close>

lemma grows_refl: "grows A h h"
  by (simp add: grows_def)

lemma grows_trans: "grows A h h1 \<Longrightarrow> grows B h1 h2 \<Longrightarrow> grows (A \<union> B) h h2"
  by (auto simp: grows_def)

lemma grows_mono: "grows A h h' \<Longrightarrow> A \<subseteq> B \<Longrightarrow> grows B h h'"
  by (auto simp: grows_def)

lemma grows_fresh:
  assumes "grows A h h'" and "\<forall>a\<in>A. length h \<le> a \<or> a \<in> B"
  shows "grows B h h'"
  unfolding grows_def
proof (intro conjI allI impI)
  show "length h \<le> length h'" using assms(1) by (simp add: grows_def)
next
  fix a assume a: "a < length h" "a \<notin> B"
  have "a \<notin> A"
  proof
    assume "a \<in> A"
    with assms(2) have "length h \<le> a \<or> a \<in> B" by blast
    with a show False by simp
  qed
  with assms(1) a(1) show "h' ! a = h ! a" by (simp add: grows_def)
qed

lemma grows_length: "grows A h h' \<Longrightarrow> length h \<le> length h'"
  by (simp add: grows_def)

lemma grows_nth: "grows A h h' \<Longrightarrow> a < length h \<Longrightarrow> a \<notin> A \<Longrightarrow> h' ! a = h ! a"
  by (simp add: grows_def)

lemma grows_take: "grows {} h h' \<Longrightarrow> take (length h) h' = h"
  by (rule nth_equalityI) (auto simp: grows_def)

lemma grows_step:
  assumes "grows {} h0 h" and "grows A h h'" and "\<forall>a\<in>A. length h0 \<le> a"
  shows "grows {} h0 h'"
proof -
  from grows_trans [OF assms(1,2)] have "grows A h0 h'" by simp
  then show ?thesis
    by (rule grows_fresh) (use assms(3) in blast)
qed

lemma grows_append: "grows {} h (h @ xs)"
  by (simp add: grows_def nth_append)

lemma alloc_eq: "alloc h ob = (a, h1) \<longleftrightarrow> a = length h \<and> h1 = h @ [ob]"
  by (auto simp: alloc_def)

lemma grows_setitem: "grows {a} h (dict_setitem h a k v)"
  by (auto simp: grows_def dict_setitem_def split: option.splits obj.splits)

lemma length_setitem [simp]: "length (dict_setitem h a k v) = length h"
  by (auto simp: dict_setitem_def split: option.splits obj.splits)

lemma grows_list_append: "grows {a} h (list_append h a v)"
  by (auto simp: grows_def list_append_def split: option.splits obj.splits)

lemma length_list_append [simp]: "length (list_append h a v) = length h"
  by (auto simp: list_append_def split: option.splits obj.splits)

lemma st_col_loop_grows: "st_col_loop h d cols = (r, h') \<Longrightarrow> grows {d} h h'"
proof (induction cols arbitrary: h)
  case Nil
  then show ?case by (simp add: grows_refl)
next
  case (Cons col cols)
  show ?case
  proof (cases "\<exists>title i k. h_getitem h col ''title'' = Inr title \<and>
      h_getitem h col ''id'' = Inr i \<and> h_key i = Inr k")
    case True
    then obtain title k where "st_col_loop (dict_setitem h d k title) d cols = (r, h')"
      using Cons.prems by auto
    from grows_trans [OF grows_setitem Cons.IH [OF this]] show ?thesis by simp
  next
    case False
    with Cons.prems have "h' = h" by (auto split: sum.splits)
    then show ?thesis by (simp add: grows_refl)
  qed
qed

lemma st_col_comp_grows: "st_col_comp h d cols = (r, h') \<Longrightarrow> grows {d} h h'"
proof (induction cols arbitrary: h)
  case Nil
  then show ?case by (simp add: grows_refl)
next
  case (Cons col cols)
  show ?case
  proof (cases "\<exists>title i k. h_getitem h col ''title'' = Inr title \<and>
      h_getitem h col ''id'' = Inr i \<and> h_key i = Inr k")
    case True
    then obtain title k where "st_col_comp (dict_setitem h d k title) d cols = (r, h')"
      using Cons.prems by auto
    from grows_trans [OF grows_setitem Cons.IH [OF this]] show ?thesis by simp
  next
    case False
    with Cons.prems have "h' = h" by (auto split: sum.splits)
    then show ?thesis by (simp add: grows_refl)
  qed
qed

lemma st_t2f_loop_grows: "st_t2f_loop h t items = (r, h') \<Longrightarrow> grows {t} h h'"
proof (induction items arbitrary: h)
  case Nil
  then show ?case by (simp add: grows_refl)
next
  case (Cons kv items)
  obtain k v where kv: "kv = (k, v)" by (cases kv)
  show ?case
  proof (cases "h_key v")
    case (Inl e)
    with Cons.prems kv have "h' = h" by simp
    then show ?thesis by (simp add: grows_refl)
  next
    case (Inr key)
    with Cons.prems kv have "st_t2f_loop (dict_setitem h t key k) t items = (r, h')" by simp
    from grows_trans [OF grows_setitem Cons.IH [OF this]] show ?thesis by simp
  qed
qed

lemma h_get_new_list_grows: "h_get_new_list h x k = (r, h') \<Longrightarrow> grows {} h h'"
  by (auto simp: h_get_new_list_def alloc_def grows_refl grows_append
      split: option.splits obj.splits)

lemma st_process_cell_grows: "st_process_cell h c t record cell = (r, h') \<Longrightarrow> grows {record} h h'"
  by (auto simp: st_process_cell_def grows_refl grows_setitem split: sum.splits if_splits)

lemma st_process_cell_length: "st_process_cell h c t record cell = (r, h') \<Longrightarrow> length h' = length h"
  by (auto simp: st_process_cell_def split: sum.splits if_splits)

lemma st_cells_loop_grows: "st_cells_loop h c t record cells = (r, h') \<Longrightarrow> grows {record} h h'"
proof (induction cells arbitrary: h)
  case Nil
  then show ?case by (simp add: grows_refl)
next
  case (Cons cell cells)
  obtain r1 h1 where s: "st_process_cell h c t record cell = (r1, h1)"
    by (cases "st_process_cell h c t record cell")
  show ?case
  proof (cases r1)
    case (Inl e)
    with Cons.prems s have "h' = h1" by simp
    with st_process_cell_grows [OF s] show ?thesis by simp
  next
    case (Inr u)
    with Cons.prems s have "st_cells_loop h1 c t record cells = (r, h')" by simp
    from grows_trans [OF st_process_cell_grows [OF s] Cons.IH [OF this]] show ?thesis by simp
  qed
qed

lemma st_build_record_grows:
  assumes "st_build_record h c t idx row = (r, h')"
  shows "grows {} h h'"
proof -
  let ?h1 = "h @ [DictObj [(VStr ''id'', VInt idx)]]"
  obtain r2 h2 where g: "h_get_new_list ?h1 row ''cells'' = (r2, h2)"
    by (cases "h_get_new_list ?h1 row ''cells''")
  have b: "grows {} h h2"
    using grows_trans [OF grows_append [of h "[DictObj [(VStr ''id'', VInt idx)]]"]
        h_get_new_list_grows [OF g]]
    by simp
  show ?thesis
  proof (cases "\<exists>cs cells. r2 = Inr cs \<and> h_iter h2 cs = Inr cells")
    case True
    then obtain cs cells where cs: "r2 = Inr cs" "h_iter h2 cs = Inr cells" by blast
    obtain r3 h3 where l: "st_cells_loop h2 c t (length h) cells = (r3, h3)"
      by (cases "st_cells_loop h2 c t (length h) cells")
    from assms g cs l have "h' = h3"
      by (auto simp: st_build_record_def alloc_def split: sum.splits)
    moreover from grows_trans [OF b st_cells_loop_grows [OF l]] have "grows {length h} h h3"
      by simp
    then have "grows {} h h3" by (rule grows_fresh) simp
    ultimately show ?thesis by simp
  next
    case False
    with assms g have "h' = h2"
      by (auto simp: st_build_record_def alloc_def split: sum.splits)
    with b show ?thesis by simp
  qed
qed

lemma st_rows_loop_grows:
  "st_rows_loop h c t u idx rows = (r, h') \<Longrightarrow> grows {u} h h'"
proof (induction rows arbitrary: h idx)
  case Nil
  then show ?case by (simp add: grows_refl)
next
  case (Cons row rows)
  obtain r1 h1 where b: "st_build_record h c t idx row = (r1, h1)"
    by (cases "st_build_record h c t idx row")
  note g1 = st_build_record_grows [OF b]
  show ?case
  proof (cases r1)
    case (Inl e)
    with Cons.prems b have "h' = h1" by simp
    with g1 show ?thesis by (auto intro: grows_mono)
  next
    case (Inr rcd)
    let ?h2 = "if h_truthy h1 (dict_lookup h1 rcd (VStr ''name'') VNone)
               then list_append h1 u (VRef rcd) else h1"
    from Cons.prems b Inr have l: "st_rows_loop ?h2 c t u (idx + 1) rows = (r, h')" by simp
    have "grows {u} h1 ?h2" by (simp add: grows_list_append grows_refl)
    from grows_trans [OF grows_trans [OF g1 this] Cons.IH [OF l]] show ?thesis by simp
  qed
qed

lemma st_return_grows: "st_return h sheet u = (r, h') \<Longrightarrow> grows {} h h'"
  by (auto simp: st_return_def alloc_def grows_refl split: sum.splits
      intro: grows_mono [OF grows_append])

lemma st_title_to_field_grows:
  assumes "st_title_to_field h col_map = (r, h')"
  shows "grows {} h h'"
proof (cases "\<exists>items. obj_at h col_map = Some (DictObj items)")
  case True
  then obtain items where i: "obj_at h col_map = Some (DictObj items)" ..
  obtain r2 h2 where l: "st_t2f_loop (h @ [DictObj []]) (length h) items = (r2, h2)"
    by (cases "st_t2f_loop (h @ [DictObj []]) (length h) items")
  from assms i l have "h' = h2"
    by (auto simp: st_title_to_field_def alloc_def split: sum.splits)
  moreover from grows_trans [OF grows_append st_t2f_loop_grows [OF l]]
  have "grows {length h} h h2" by simp
  then have "grows {} h h2" by (rule grows_fresh) simp
  ultimately show ?thesis by simp
next
  case False
  with assms have "h' = h"
    by (auto simp: st_title_to_field_def split: option.splits obj.splits)
  then show ?thesis by (simp add: grows_refl)
qed

lemma st_col_id_to_title_server_grows:
  assumes "st_col_id_to_title_server h sheet = (r, h')"
  shows "grows {} h h'"
proof -
  obtain r2 h2 where g: "h_get_new_list (h @ [DictObj []]) sheet ''columns'' = (r2, h2)"
    by (cases "h_get_new_list (h @ [DictObj []]) sheet ''columns''")
  have b: "grows {} h h2"
    using grows_trans [OF grows_append [of h "[DictObj []]"] h_get_new_list_grows [OF g]]
    by simp
  show ?thesis
  proof (cases "\<exists>cs cols. r2 = Inr cs \<and> h_iter h2 cs = Inr cols")
    case True
    then obtain cs cols where cs: "r2 = Inr cs" "h_iter h2 cs = Inr cols" by blast
    obtain r3 h3 where l: "st_col_loop h2 (length h) cols = (r3, h3)"
      by (cases "st_col_loop h2 (length h) cols")
    from assms g cs l have "h' = h3"
      by (auto simp: st_col_id_to_title_server_def alloc_def split: sum.splits)
    moreover from grows_trans [OF b st_col_loop_grows [OF l]] have "grows {length h} h h3"
      by simp
    then have "grows {} h h3" by (rule grows_fresh) simp
    ultimately show ?thesis by simp
  next
    case False
    with assms g have "h' = h2"
      by (auto simp: st_col_id_to_title_server_def alloc_def split: sum.splits)
    with b show ?thesis by simp
  qed
qed

lemma st_col_id_to_title_vercel_grows:
  assumes "st_col_id_to_title_vercel h sheet = (r, h')"
  shows "grows {} h h'"
proof -
  obtain r1 h1 where g: "h_get_new_list h sheet ''columns'' = (r1, h1)"
    by (cases "h_get_new_list h sheet ''columns''")
  note b = h_get_new_list_grows [OF g]
  show ?thesis
  proof (cases "\<exists>cs cols. r1 = Inr cs \<and> h_iter h1 cs = Inr cols")
    case True
    then obtain cs cols where cs: "r1 = Inr cs" "h_iter h1 cs = Inr cols" by blast
    obtain r3 h3 where l: "st_col_comp (h1 @ [DictObj []]) (length h1) cols = (r3, h3)"
      by (cases "st_col_comp (h1 @ [DictObj []]) (length h1) cols")
    from assms g cs l have "h' = h3"
      by (auto simp: st_col_id_to_title_vercel_def alloc_def split: sum.splits)
    moreover from grows_trans [OF grows_append st_col_comp_grows [OF l]]
    have "grows {length h1} h1 h3" by simp
    then have "grows {} h1 h3" by (rule grows_fresh) simp
    with b have "grows {} h h3" using grows_trans by fastforce
    ultimately show ?thesis by simp
  next
    case False
    with assms g have "h' = h1"
      by (auto simp: st_col_id_to_title_vercel_def alloc_def split: sum.splits)
    with b show ?thesis by simp
  qed
qed

lemma st_parse_rows_grows:
  assumes "st_parse_rows h c sheet col_map = (r, h')"
  shows "grows {} h h'"
proof -
  obtain r1 h1 where t: "st_title_to_field h col_map = (r1, h1)"
    by (cases "st_title_to_field h col_map")
  note g1 = st_title_to_field_grows [OF t]
  show ?thesis
  proof (cases r1)
    case (Inl e)
    with assms t have "h' = h1" by (simp add: st_parse_rows_def)
    with g1 show ?thesis by simp
  next
    case (Inr tt)
    let ?h2 = "h1 @ [ListObj []]"
    obtain r3 h3 where g: "h_get_new_list ?h2 sheet ''rows'' = (r3, h3)"
      by (cases "h_get_new_list ?h2 sheet ''rows''")
    have g3: "grows {} h1 h3"
      using grows_trans [OF grows_append [of h1 "[ListObj []]"] h_get_new_list_grows [OF g]]
      by simp
    show ?thesis
    proof (cases "\<exists>rs rows. r3 = Inr rs \<and> h_iter h3 rs = Inr rows")
      case True
      then obtain rs rows where rs: "r3 = Inr rs" "h_iter h3 rs = Inr rows" by blast
      obtain r4 h4 where l: "st_rows_loop h3 c tt (length h1) 1 rows = (r4, h4)"
        by (cases "st_rows_loop h3 c tt (length h1) 1 rows")
      from grows_trans [OF g3 st_rows_loop_grows [OF l]] have "grows {length h1} h1 h4"
        by simp
      then have g4: "grows {} h1 h4" by (rule grows_fresh) simp
      show ?thesis
      proof (cases r4)
        case (Inl e)
        with assms t Inr g rs l have "h' = h4"
          by (simp add: st_parse_rows_def alloc_def)
        with grows_trans [OF g1 g4] show ?thesis by simp
      next
        case (Inr u)
        with assms t \<open>r1 = Inr tt\<close> g rs l have "st_return h4 sheet (length h1) = (r, h')"
          by (simp add: st_parse_rows_def alloc_def)
        from grows_trans [OF grows_trans [OF g1 g4] st_return_grows [OF this]]
        show ?thesis by simp
      qed
    next
      case False
      with assms t Inr g have "h' = h3"
        by (auto simp: st_parse_rows_def alloc_def split: sum.splits)
      with grows_trans [OF g1 g3] show ?thesis by simp
    qed
  qed
qed

lemma st_transform_server_grows:
  assumes "st_transform_server h sheet col_map = (r, h')"
  shows "grows {} h h'"
proof -
  obtain r1 h1 where c: "st_col_id_to_title_server h sheet = (r1, h1)"
    by (cases "st_col_id_to_title_server h sheet")
  note g1 = st_col_id_to_title_server_grows [OF c]
  show ?thesis
  proof (cases r1)
    case (Inl e)
    with assms c have "h' = h1" by (simp add: st_transform_server_def)
    with g1 show ?thesis by simp
  next
    case (Inr cc)
    with assms c have "st_parse_rows h1 cc sheet col_map = (r, h')"
      by (simp add: st_transform_server_def)
    from grows_trans [OF g1 st_parse_rows_grows [OF this]] show ?thesis by simp
  qed
qed

lemma st_transform_vercel_grows:
  assumes "st_transform_vercel h sheet col_map = (r, h')"
  shows "grows {} h h'"
proof -
  obtain r1 h1 where c: "st_col_id_to_title_vercel h sheet = (r1, h1)"
    by (cases "st_col_id_to_title_vercel h sheet")
  note g1 = st_col_id_to_title_vercel_grows [OF c]
  show ?thesis
  proof (cases r1)
    case (Inl e)
    with assms c have "h' = h1" by (simp add: st_transform_vercel_def)
    with g1 show ?thesis by simp
  next
    case (Inr cc)
    with assms c have "st_parse_rows h1 cc sheet col_map = (r, h')"
      by (simp add: st_transform_vercel_def)
    from grows_trans [OF g1 st_parse_rows_grows [OF this]] show ?thesis by simp
  qed
qed

subsection \<open>Reading the inputs\<close>

lemma rep_atom: "atom v = Some j \<Longrightarrow> rep h v j"
  by (cases v) (auto intro: rep.intros)

lemma atom_inject: "atom k = Some j \<Longrightarrow> atom k' = Some j \<Longrightarrow> k = k'"
  by (cases k; cases k') auto

lemma rep_grows:
  assumes g: "grows {} h0 h"
  shows "rep h0 v j \<Longrightarrow> rep h v j"
proof (induction rule: rep.induct)
  case (rep_List a vs js)
  from rep_List(3) have "list_all2 (rep h) vs js"
    by (rule list_all2_mono) simp
  moreover from g rep_List(1,2) have "a < length h" "h ! a = ListObj vs"
    by (auto simp: grows_def)
  ultimately show ?case by (rule_tac rep.rep_List)
next
  case (rep_Dict a kvs kjs)
  from rep_Dict(3)
  have "list_all2 (\<lambda>kv kj. fst kv = VStr (fst kj) \<and> rep h (snd kv) (snd kj)) kvs kjs"
    by (rule list_all2_mono) simp
  moreover from g rep_Dict(1,2) have "a < length h" "h ! a = DictObj kvs"
    by (auto simp: grows_def)
  ultimately show ?case by (rule_tac rep.rep_Dict)
qed (auto intro: rep.intros)

lemma rep_obj_at:
  assumes "rep h0 v j"
  shows "(obj_at h0 v = None \<and> atom v = Some j) \<or>
         (\<exists>vs js. obj_at h0 v = Some (ListObj vs) \<and> j = JArr js \<and> list_all2 (rep h0) vs js) \<or>
         (\<exists>kvs kjs. obj_at h0 v = Some (DictObj kvs) \<and> j = JObj kjs \<and> entries_rep h0 kvs kjs)"
  using assms by (cases rule: rep.cases) (auto simp: obj_at_def entries_rep_def)

lemma obj_at_grows: "rep h0 v j \<Longrightarrow> grows {} h0 h \<Longrightarrow> obj_at h v = obj_at h0 v"
  by (cases rule: rep.cases) (auto simp: obj_at_def grows_def)

lemma atom_cases:
  "atom v = Some j \<Longrightarrow>
   (v = VNone \<and> j = JNull) \<or> (\<exists>b. v = VBool b \<and> j = JBool b) \<or>
   (\<exists>i. v = VInt i \<and> j = JInt i) \<or> (\<exists>s. v = VStr s \<and> j = JStr s)"
  by (cases v) auto

lemma entries_lookup:
  "entries_rep h0 kvs kjs \<Longrightarrow> rel_option (rep h0) (map_of kvs (VStr k)) (map_of kjs k)"
  unfolding entries_rep_def
proof (induction rule: list_all2_induct)
  case Nil
  then show ?case by simp
next
  case (Cons kv kvs kj kjs)
  obtain a b where kv: "kv = (a, b)" by (cases kv)
  obtain a' b' where kj: "kj = (a', b')" by (cases kj)
  from Cons kv kj show ?case by auto
qed

lemma h_get_rep:
  assumes g: "grows {} h0 h" and x: "rep h0 x j" and d: "rep h0 d dj"
  shows "rel_sum (=) (rep h0) (h_get h x k d) (py_get j k dj)"
proof -
  have o: "obj_at h x = obj_at h0 x" using x g by (rule obj_at_grows)
  from rep_obj_at [OF x] show ?thesis
  proof (elim disjE exE conjE)
    assume "obj_at h0 x = None" "atom x = Some j"
    then show ?thesis using o by (auto simp: h_get_def dest!: atom_cases)
  next
    fix vs js assume "obj_at h0 x = Some (ListObj vs)" "j = JArr js"
    then show ?thesis using o by (simp add: h_get_def)
  next
    fix kvs kjs assume a: "obj_at h0 x = Some (DictObj kvs)" "j = JObj kjs"
      "entries_rep h0 kvs kjs"
    from entries_lookup [OF a(3), of k] a(1,2) o d show ?thesis
      by (cases "map_of kvs (VStr k)"; cases "map_of kjs k")
         (auto simp: h_get_def dict_get_def)
  qed
qed

lemma h_getitem_rep:
  assumes g: "grows {} h0 h" and x: "rep h0 x j"
  shows "rel_sum (=) (rep h0) (h_getitem h x k) (py_getitem j k)"
proof -
  have o: "obj_at h x = obj_at h0 x" using x g by (rule obj_at_grows)
  from rep_obj_at [OF x] show ?thesis
  proof (elim disjE exE conjE)
    assume "obj_at h0 x = None" "atom x = Some j"
    then show ?thesis using o by (auto simp: h_getitem_def dest!: atom_cases)
  next
    fix vs js assume "obj_at h0 x = Some (ListObj vs)" "j = JArr js"
    then show ?thesis using o by (simp add: h_getitem_def)
  next
    fix kvs kjs assume a: "obj_at h0 x = Some (DictObj kvs)" "j = JObj kjs"
      "entries_rep h0 kvs kjs"
    from entries_lookup [OF a(3), of k] a(1,2) o show ?thesis
      by (cases "map_of kvs (VStr k)"; cases "map_of kjs k")
         (auto simp: h_getitem_def)
  qed
qed

lemma entries_keys:
  "entries_rep h0 kvs kjs \<Longrightarrow> list_all2 (rep h0) (map fst kvs) (map (\<lambda>kv. JStr (fst kv)) kjs)"
  unfolding entries_rep_def
  by (induction rule: list_all2_induct) (auto intro: rep.intros)

lemma h_iter_rep:
  assumes g: "grows {} h0 h" and x: "rep h0 x j"
  shows "rel_sum (=) (list_all2 (rep h0)) (h_iter h x) (py_iter j)"
proof -
  have o: "obj_at h x = obj_at h0 x" using x g by (rule obj_at_grows)
  from rep_obj_at [OF x] show ?thesis
  proof (elim disjE exE conjE)
    assume a: "obj_at h0 x = None" "atom x = Some j"
    have "list_all2 (rep h0) (map (\<lambda>c. VStr [c]) s) (map (\<lambda>c. JStr [c]) s)" for s
      by (induction s) (auto intro: rep.intros)
    with a show ?thesis using o by (auto simp: h_iter_def obj_at_def dest!: atom_cases)
  next
    fix vs js assume "obj_at h0 x = Some (ListObj vs)" "j = JArr js" "list_all2 (rep h0) vs js"
    then show ?thesis using o by (cases x) (auto simp: h_iter_def obj_at_def)
  next
    fix kvs kjs assume a: "obj_at h0 x = Some (DictObj kvs)" "j = JObj kjs"
      "entries_rep h0 kvs kjs"
    from entries_keys [OF a(3)] a(1,2) o show ?thesis
      by (cases x) (auto simp: h_iter_def obj_at_def)
  qed
qed

lemma h_key_rep:
  assumes "rep h0 v j"
  shows "rel_sum (=) (\<lambda>k jk. atom k = Some jk) (h_key v) (dict_key j)"
  using assms by (cases rule: rep.cases) auto

lemma h_truthy_rep:
  assumes g: "grows {} h0 h" and v: "rep h0 v j"
  shows "h_truthy h v = truthy j"
proof -
  have o: "obj_at h v = obj_at h0 v" using v g by (rule obj_at_grows)
  from v show ?thesis
  proof (cases rule: rep.cases)
    case (rep_List a vs js)
    then have "obj_at h0 v = Some (ListObj vs)" by (simp add: obj_at_def)
    with o rep_List show ?thesis by (auto simp: h_truthy_def)
  next
    case (rep_Dict a kvs kjs)
    then have "obj_at h0 v = Some (DictObj kvs)" by (simp add: obj_at_def)
    with o rep_Dict show ?thesis by (auto simp: h_truthy_def)
  qed (simp_all add: h_truthy_def)
qed

lemma iter_get_rep:
  assumes g: "grows {} h0 h" and x: "rep h0 x j"
    and r: "h_get_new_list h x k = (r, h')"
  shows "rel_sum (=) (list_all2 (rep h0))
           (case r of Inl e \<Rightarrow> Inl e | Inr cs \<Rightarrow> h_iter h' cs)
           (case py_get j k (JArr []) of Inl e \<Rightarrow> Inl e | Inr cs \<Rightarrow> py_iter cs)"
proof -
  have o: "obj_at h x = obj_at h0 x" using x g by (rule obj_at_grows)
  have g': "grows {} h0 h'"
    using grows_trans [OF g h_get_new_list_grows [OF r]] by simp
  from rep_obj_at [OF x] show ?thesis
  proof (elim disjE exE conjE)
    assume "obj_at h0 x = None" "atom x = Some j"
    then show ?thesis using o r by (auto simp: h_get_new_list_def dest!: atom_cases)
  next
    fix vs js assume "obj_at h0 x = Some (ListObj vs)" "j = JArr js"
    then show ?thesis using o r by (auto simp: h_get_new_list_def)
  next
    fix kvs kjs assume a: "obj_at h0 x = Some (DictObj kvs)" "j = JObj kjs"
      "entries_rep h0 kvs kjs"
    show ?thesis
    proof (cases "map_of kvs (VStr k)")
      case None
      with entries_lookup [OF a(3), of k] have n: "map_of kjs k = None"
        by (cases "map_of kjs k") auto
      from None a(1) o r have "r = Inr (VRef (length h))" "h' = h @ [ListObj []]"
        by (auto simp: h_get_new_list_def alloc_def)
      then have "h_iter h' (case r of Inr cs \<Rightarrow> cs) = Inr []"
        by (simp add: h_iter_def obj_at_def)
      with \<open>r = Inr (VRef (length h))\<close> n a(2) show ?thesis
        by (simp add: dict_get_def)
    next
      case (Some v)
      with entries_lookup [OF a(3), of k] obtain jv where jv: "map_of kjs k = Some jv"
        "rep h0 v jv"
        by (cases "map_of kjs k") auto
      from Some a(1) o r have "r = Inr v" by (auto simp: h_get_new_list_def alloc_def)
      with h_iter_rep [OF g' jv(2)] jv(1) a(2) show ?thesis
        by (simp add: dict_get_def)
    qed
  qed
qed

subsection \<open>The two lookup tables\<close>

lemma rel_sum_InlD: "rel_sum (=) R x y \<Longrightarrow> x = Inl e \<Longrightarrow> y = Inl e"
  by (cases y) auto

lemma rel_sum_InrD: "rel_sum (=) R x y \<Longrightarrow> x = Inr a \<Longrightarrow> \<exists>b. y = Inr b \<and> R a b"
  by (cases y) auto

lemma obj_at_Some: "obj_at h (VRef a) = Some ob \<longleftrightarrow> a < length h \<and> h ! a = ob"
  by (auto simp: obj_at_def)

lemma obj_at_grows_other:
  "grows A h h' \<Longrightarrow> a \<notin> A \<Longrightarrow> obj_at h (VRef a) = Some ob \<Longrightarrow> obj_at h' (VRef a) = Some ob"
  by (auto simp: obj_at_Some grows_def)

lemma table_rep_grows:
  "table_rep h0 h c m \<Longrightarrow> grows A h h' \<Longrightarrow> c \<notin> A \<Longrightarrow> table_rep h0 h' c m"
  unfolding table_rep_def by (blast intro: obj_at_grows_other)

lemma names_rep_grows:
  "names_rep h t m \<Longrightarrow> grows A h h' \<Longrightarrow> t \<notin> A \<Longrightarrow> names_rep h' t m"
  unfolding names_rep_def by (blast intro: obj_at_grows_other)

lemma record_rep_grows:
  "record_rep h0 h r rcd \<Longrightarrow> grows A h h' \<Longrightarrow> r \<notin> A \<Longrightarrow> record_rep h0 h' r rcd"
  unfolding record_rep_def by (blast intro: obj_at_grows_other)

lemma obj_at_setitem_same:
  "obj_at h (VRef a) = Some (DictObj kvs) \<Longrightarrow>
   obj_at (dict_setitem h a k v) (VRef a) = Some (DictObj (AList.update k v kvs))"
  by (auto simp: obj_at_def dict_setitem_def split: if_splits)

lemma table_rep_setitem:
  assumes "table_rep h0 h d m" and "atom k = Some jk" and "rep h0 v jv"
  shows "table_rep h0 (dict_setitem h d k v) d (m(jk \<mapsto> jv))"
proof -
  from assms(1) obtain kvs where kvs: "obj_at h (VRef d) = Some (DictObj kvs)"
    "\<And>k jk. atom k = Some jk \<Longrightarrow> rel_option (rep h0) (map_of kvs k) (m jk)"
    unfolding table_rep_def by blast
  have "rel_option (rep h0) (map_of (AList.update k v kvs) k') ((m(jk \<mapsto> jv)) jk')"
    if a: "atom k' = Some jk'" for k' jk'
  proof (cases "k' = k")
    case True
    with a assms(2) have "jk' = jk" by simp
    with True assms(3) show ?thesis by (simp add: update_conv')
  next
    case False
    with a assms(2) have "jk' \<noteq> jk" by (auto dest: atom_inject)
    with False kvs(2) [OF a] show ?thesis by (simp add: update_conv')
  qed
  with obj_at_setitem_same [OF kvs(1)] show ?thesis unfolding table_rep_def by blast
qed

lemma names_rep_setitem:
  assumes "names_rep h t m" and "atom k = Some jk"
  shows "names_rep (dict_setitem h t k (VStr f)) t (m(jk \<mapsto> f))"
proof -
  from assms(1) obtain kvs where kvs: "obj_at h (VRef t) = Some (DictObj kvs)"
    "\<And>k jk. atom k = Some jk \<Longrightarrow> map_of kvs k = map_option VStr (m jk)"
    unfolding names_rep_def by blast
  have "map_of (AList.update k (VStr f) kvs) k' = map_option VStr ((m(jk \<mapsto> f)) jk')"
    if a: "atom k' = Some jk'" for k' jk'
  proof (cases "k' = k")
    case True
    with a assms(2) have "jk' = jk" by simp
    with True show ?thesis by (simp add: update_conv')
  next
    case False
    with a assms(2) have "jk' \<noteq> jk" by (auto dest: atom_inject)
    with False kvs(2) [OF a] show ?thesis by (simp add: update_conv')
  qed
  with obj_at_setitem_same [OF kvs(1)] show ?thesis unfolding names_rep_def by blast
qed

lemma st_col_loop_rep:
  assumes "list_all2 (rep h0) cols jcols"
  shows "grows {} h0 h \<Longrightarrow> length h0 \<le> d \<Longrightarrow> table_rep h0 h d m \<Longrightarrow>
         st_col_loop h d cols = (r, h') \<Longrightarrow>
         rel_sum (=) (\<lambda>u m'. table_rep h0 h' d m') r (col_id_to_title_loop m jcols)"
  using assms
proof (induction cols jcols arbitrary: h m rule: list_all2_induct)
  case Nil
  then show ?case by auto
next
  case (Cons col cols jcol jcols)
  note g = \<open>grows {} h0 h\<close>
  note t = h_getitem_rep [OF g \<open>rep h0 col jcol\<close>, of "''title''"]
  note i = h_getitem_rep [OF g \<open>rep h0 col jcol\<close>, of "''id''"]
  note run = \<open>st_col_loop h d (col # cols) = (r, h')\<close>
  show ?case
  proof (cases "h_getitem h col ''title''")
    case (Inl e)
    with rel_sum_InlD [OF t Inl] run show ?thesis by auto
  next
    case title: (Inr title)
    from rel_sum_InrD [OF t title] obtain jt where jt:
      "py_getitem jcol ''title'' = Inr jt" "rep h0 title jt" by blast
    show ?thesis
    proof (cases "h_getitem h col ''id''")
      case (Inl e)
      with rel_sum_InlD [OF i Inl] run title jt show ?thesis by auto
    next
      case ident: (Inr ident)
      from rel_sum_InrD [OF i ident] obtain ji where ji:
        "py_getitem jcol ''id'' = Inr ji" "rep h0 ident ji" by blast
      note k = h_key_rep [OF ji(2)]
      show ?thesis
      proof (cases "h_key ident")
        case (Inl e)
        with rel_sum_InlD [OF k Inl] run title jt ident ji show ?thesis by auto
      next
        case key: (Inr key)
        from rel_sum_InrD [OF k key] obtain jk where jk:
          "dict_key ji = Inr jk" "atom key = Some jk" by blast
        let ?h1 = "dict_setitem h d key title"
        have g1: "grows {} h0 ?h1"
          by (rule grows_step [OF g grows_setitem]) (use Cons.prems(2) in simp)
        have t1: "table_rep h0 ?h1 d (m(jk \<mapsto> jt))"
          by (rule table_rep_setitem [OF \<open>table_rep h0 h d m\<close> jk(2) jt(2)])
        from run title ident key have run1: "st_col_loop ?h1 d cols = (r, h')" by simp
        have e: "col_id_to_title_loop m (jcol # jcols) =
                 col_id_to_title_loop (m(jk \<mapsto> jt)) jcols"
          using jt ji jk by simp
        show ?thesis unfolding e by (rule Cons.IH [OF g1 Cons.prems(2) t1 run1])
      qed
    qed
  qed
qed

lemma st_col_comp_rep:
  assumes "list_all2 (rep h0) cols jcols"
  shows "grows {} h0 h \<Longrightarrow> length h0 \<le> d \<Longrightarrow> table_rep h0 h d m \<Longrightarrow>
         st_col_comp h d cols = (r, h') \<Longrightarrow>
         rel_sum (=) (\<lambda>u m'. table_rep h0 h' d m') r (col_id_to_title_comp m jcols)"
  using assms
proof (induction cols jcols arbitrary: h m rule: list_all2_induct)
  case Nil
  then show ?case by auto
next
  case (Cons col cols jcol jcols)
  note g = \<open>grows {} h0 h\<close>
  note t = h_getitem_rep [OF g \<open>rep h0 col jcol\<close>, of "''title''"]
  note i = h_getitem_rep [OF g \<open>rep h0 col jcol\<close>, of "''id''"]
  note run = \<open>st_col_comp h d (col # cols) = (r, h')\<close>
  show ?case
  proof (cases "h_getitem h col ''id''")
    case (Inl e)
    with rel_sum_InlD [OF i Inl] run show ?thesis by auto
  next
    case ident: (Inr ident)
    from rel_sum_InrD [OF i ident] obtain ji where ji:
      "py_getitem jcol ''id'' = Inr ji" "rep h0 ident ji" by blast
    show ?thesis
    proof (cases "h_getitem h col ''title''")
      case (Inl e)
      with rel_sum_InlD [OF t Inl] run ident ji show ?thesis by auto
    next
      case title: (Inr title)
      from rel_sum_InrD [OF t title] obtain jt where jt:
        "py_getitem jcol ''title'' = Inr jt" "rep h0 title jt" by blast
      note k = h_key_rep [OF ji(2)]
      show ?thesis
      proof (cases "h_key ident")
        case (Inl e)
        with rel_sum_InlD [OF k Inl] run title jt ident ji show ?thesis by auto
      next
        case key: (Inr key)
        from rel_sum_InrD [OF k key] obtain jk where jk:
          "dict_key ji = Inr jk" "atom key = Some jk" by blast
        let ?h1 = "dict_setitem h d key title"
        have g1: "grows {} h0 ?h1"
          by (rule grows_step [OF g grows_setitem]) (use Cons.prems(2) in simp)
        have t1: "table_rep h0 ?h1 d (m(jk \<mapsto> jt))"
          by (rule table_rep_setitem [OF \<open>table_rep h0 h d m\<close> jk(2) jt(2)])
        from run title ident key have run1: "st_col_comp ?h1 d cols = (r, h')" by simp
        have e: "col_id_to_title_comp m (jcol # jcols) =
                 col_id_to_title_comp (m(jk \<mapsto> jt)) jcols"
          using jt ji jk by simp
        show ?thesis unfolding e by (rule Cons.IH [OF g1 Cons.prems(2) t1 run1])
      qed
    qed
  qed
qed

lemma st_t2f_loop_rep:
  assumes "list_all2 (\<lambda>kv kj. fst kv = VStr (fst kj) \<and> rep h0 (snd kv) (snd kj)) items jitems"
  shows "names_rep h t m \<Longrightarrow> st_t2f_loop h t items = (r, h') \<Longrightarrow>
         rel_sum (=) (\<lambda>u m'. names_rep h' t m') r (title_to_field_comp m jitems)"
  using assms
proof (induction items jitems arbitrary: h m rule: list_all2_induct)
  case Nil
  then show ?case by auto
next
  case (Cons kv items kj jitems)
  obtain f jv where kj: "kj = (f, jv)" by (cases kj)
  with Cons.hyps(1) obtain v where kv: "kv = (VStr f, v)" "rep h0 v jv" by (cases kv) auto
  note k = h_key_rep [OF kv(2)]
  note run = \<open>st_t2f_loop h t (kv # items) = (r, h')\<close>
  show ?case
  proof (cases "h_key v")
    case (Inl e)
    with rel_sum_InlD [OF k Inl] run kv kj show ?thesis by auto
  next
    case key: (Inr key)
    from rel_sum_InrD [OF k key] obtain jk where jk:
      "dict_key jv = Inr jk" "atom key = Some jk" by blast
    let ?h1 = "dict_setitem h t key (VStr f)"
    have t1: "names_rep ?h1 t (m(jk \<mapsto> f))"
      by (rule names_rep_setitem [OF \<open>names_rep h t m\<close> jk(2)])
    from run kv key have run1: "st_t2f_loop ?h1 t items = (r, h')" by simp
    have e: "title_to_field_comp m (kj # jitems) = title_to_field_comp (m(jk \<mapsto> f)) jitems"
      using kj jk by simp
    show ?thesis unfolding e by (rule Cons.IH [OF t1 run1])
  qed
qed

lemma st_title_to_field_rep:
  assumes g: "grows {} h0 h" and x: "rep h0 col_map cj"
    and run: "st_title_to_field h col_map = (r, h')"
  shows "rel_sum (=) (\<lambda>t m. names_rep h' t m \<and> t = length h) r (title_to_field cj)"
proof -
  have o: "obj_at h col_map = obj_at h0 col_map" using x g by (rule obj_at_grows)
  from rep_obj_at [OF x] show ?thesis
  proof (elim disjE exE conjE)
    assume "obj_at h0 col_map = None" "atom col_map = Some cj"
    then show ?thesis using o run by (auto simp: st_title_to_field_def dest!: atom_cases)
  next
    fix vs js assume "obj_at h0 col_map = Some (ListObj vs)" "cj = JArr js"
    then show ?thesis using o run by (auto simp: st_title_to_field_def)
  next
    fix kvs kjs assume a: "obj_at h0 col_map = Some (DictObj kvs)" "cj = JObj kjs"
      "entries_rep h0 kvs kjs"
    let ?h1 = "h @ [DictObj []]"
    obtain r2 h2 where l: "st_t2f_loop ?h1 (length h) kvs = (r2, h2)"
      by (cases "st_t2f_loop ?h1 (length h) kvs")
    have n: "names_rep ?h1 (length h) Map.empty"
      by (simp add: names_rep_def obj_at_def)
    note s = st_t2f_loop_rep [OF a(3) [unfolded entries_rep_def] n l]
    show ?thesis
    proof (cases r2)
      case (Inl e)
      with run a(1) o l have "r = Inl e" by (simp add: st_title_to_field_def alloc_def)
      with rel_sum_InlD [OF s Inl] a(2) show ?thesis by auto
    next
      case (Inr u)
      with run a(1) o l have "r = Inr (length h)" "h' = h2"
        by (simp_all add: st_title_to_field_def alloc_def)
      with rel_sum_InrD [OF s Inr] a(2) show ?thesis by auto
    qed
  qed
qed

subsection \<open>The column table of each file\<close>

lemma table_rep_empty: "table_rep h0 (h @ [DictObj []]) (length h) Map.empty"
  by (simp add: table_rep_def obj_at_def)

lemma st_col_id_to_title_server_rep:
  assumes g: "grows {} h0 h" and x: "rep h0 sheet sj"
    and run: "st_col_id_to_title_server h sheet = (r, h')"
  shows "rel_sum (=) (\<lambda>c m. table_rep h0 h' c m) r (col_id_to_title_server sj)"
proof -
  let ?h1 = "h @ [DictObj []]"
  have g1: "grows {} h0 ?h1" using grows_trans [OF g grows_append [of h "[DictObj []]"]] by simp
  obtain r2 h2 where gl: "h_get_new_list ?h1 sheet ''columns'' = (r2, h2)"
    by (cases "h_get_new_list ?h1 sheet ''columns''")
  note g12 = h_get_new_list_grows [OF gl]
  have g2: "grows {} h0 h2" using grows_trans [OF g1 g12] by simp
  let ?it = "case r2 of Inl e \<Rightarrow> Inl e | Inr cs \<Rightarrow> h_iter h2 cs"
  have it: "rel_sum (=) (list_all2 (rep h0)) ?it (sheet_columns sj)"
    unfolding sheet_columns_def by (rule iter_get_rep [OF g1 x gl])
  show ?thesis
  proof (cases ?it)
    case (Inl e)
    with run gl have "r = Inl e"
      by (auto simp: st_col_id_to_title_server_def alloc_def split: sum.splits)
    with rel_sum_InlD [OF it Inl] show ?thesis by (simp add: col_id_to_title_server_def)
  next
    case (Inr cols)
    from rel_sum_InrD [OF it Inr] obtain jcols where jcols:
      "sheet_columns sj = Inr jcols" "list_all2 (rep h0) cols jcols" by blast
    obtain r3 h3 where l: "st_col_loop h2 (length h) cols = (r3, h3)"
      by (cases "st_col_loop h2 (length h) cols")
    have t2: "table_rep h0 h2 (length h) Map.empty"
      by (rule table_rep_grows [OF table_rep_empty g12]) simp
    have h0h: "length h0 \<le> length h" using g by (rule grows_length)
    note s = st_col_loop_rep [OF jcols(2) g2 h0h t2 l]
    from run gl Inr l have r: "r = (case r3 of Inl e \<Rightarrow> Inl e | Inr u \<Rightarrow> Inr (length h))"
      "h' = h3"
      by (auto simp: st_col_id_to_title_server_def alloc_def split: sum.splits)
    show ?thesis
    proof (cases r3)
      case (Inl e)
      with rel_sum_InlD [OF s Inl] r jcols show ?thesis
        by (simp add: col_id_to_title_server_def)
    next
      case (Inr u)
      with rel_sum_InrD [OF s Inr] r jcols show ?thesis
        by (auto simp: col_id_to_title_server_def)
    qed
  qed
qed

lemma st_col_id_to_title_vercel_rep:
  assumes g: "grows {} h0 h" and x: "rep h0 sheet sj"
    and run: "st_col_id_to_title_vercel h sheet = (r, h')"
  shows "rel_sum (=) (\<lambda>c m. table_rep h0 h' c m) r (col_id_to_title_vercel sj)"
proof -
  obtain r1 h1 where gl: "h_get_new_list h sheet ''columns'' = (r1, h1)"
    by (cases "h_get_new_list h sheet ''columns''")
  note g01 = h_get_new_list_grows [OF gl]
  have g1: "grows {} h0 h1" using grows_trans [OF g g01] by simp
  let ?it = "case r1 of Inl e \<Rightarrow> Inl e | Inr cs \<Rightarrow> h_iter h1 cs"
  have it: "rel_sum (=) (list_all2 (rep h0)) ?it (sheet_columns sj)"
    unfolding sheet_columns_def by (rule iter_get_rep [OF g x gl])
  show ?thesis
  proof (cases ?it)
    case (Inl e)
    with run gl have "r = Inl e"
      by (auto simp: st_col_id_to_title_vercel_def alloc_def split: sum.splits)
    with rel_sum_InlD [OF it Inl] show ?thesis by (simp add: col_id_to_title_vercel_def)
  next
    case (Inr cols)
    from rel_sum_InrD [OF it Inr] obtain jcols where jcols:
      "sheet_columns sj = Inr jcols" "list_all2 (rep h0) cols jcols" by blast
    let ?h2 = "h1 @ [DictObj []]"
    obtain r3 h3 where l: "st_col_comp ?h2 (length h1) cols = (r3, h3)"
      by (cases "st_col_comp ?h2 (length h1) cols")
    have g2: "grows {} h0 ?h2"
      using grows_trans [OF g1 grows_append [of h1 "[DictObj []]"]] by simp
    have h0h: "length h0 \<le> length h1" using g1 by (rule grows_length)
    note s = st_col_comp_rep [OF jcols(2) g2 h0h table_rep_empty l]
    from run gl Inr l have r: "r = (case r3 of Inl e \<Rightarrow> Inl e | Inr u \<Rightarrow> Inr (length h1))"
      "h' = h3"
      by (auto simp: st_col_id_to_title_vercel_def alloc_def split: sum.splits)
    show ?thesis
    proof (cases r3)
      case (Inl e)
      with rel_sum_InlD [OF s Inl] r jcols show ?thesis
        by (simp add: col_id_to_title_vercel_def)
    next
      case (Inr u)
      with rel_sum_InrD [OF s Inr] r jcols show ?thesis
        by (auto simp: col_id_to_title_vercel_def)
    qed
  qed
qed

subsection \<open>Cells\<close>

lemma dict_lookup_table:
  assumes "table_rep h0 h c m" and "atom k = Some jk" and "rep h0 dflt jd"
  shows "rep h0 (dict_lookup h c k dflt) (case m jk of None \<Rightarrow> jd | Some v \<Rightarrow> v)"
proof -
  from assms(1) obtain kvs where kvs: "obj_at h (VRef c) = Some (DictObj kvs)"
    "\<And>k jk. atom k = Some jk \<Longrightarrow> rel_option (rep h0) (map_of kvs k) (m jk)"
    unfolding table_rep_def by blast
  from kvs(2) [OF assms(2)] kvs(1) assms(3) show ?thesis
    by (cases "map_of kvs k"; cases "m jk") (auto simp: dict_lookup_def)
qed

lemma dict_lookup_names:
  assumes "names_rep h t m" and "atom k = Some jk"
  shows "dict_lookup h t k VNone = (case m jk of None \<Rightarrow> VNone | Some f \<Rightarrow> VStr f)"
proof -
  from assms(1) obtain kvs where kvs: "obj_at h (VRef t) = Some (DictObj kvs)"
    "\<And>k jk. atom k = Some jk \<Longrightarrow> map_of kvs k = map_option VStr (m jk)"
    unfolding names_rep_def by blast
  from kvs(2) [OF assms(2)] kvs(1) show ?thesis
    by (cases "m jk") (auto simp: dict_lookup_def)
qed

lemma h_get_dict:
  assumes g: "grows {} h0 h" and x: "rep h0 cell (JObj jcell)" and d: "rep h0 d dj"
  shows "\<exists>v. h_get h cell k d = Inr v \<and> rep h0 v (dict_get jcell k dj)"
  using h_get_rep [OF g x d, of k] by (cases "h_get h cell k d") auto

lemma st_cell_field_rep:
  assumes g: "grows {} h0 h" and tc: "table_rep h0 h c m" and tn: "names_rep h t tm"
    and x: "rep h0 cell (JObj jcell)"
  shows "rel_sum (=) (\<lambda>f jf. f = (case jf of None \<Rightarrow> VNone | Some s \<Rightarrow> VStr s))
           (st_cell_field h c t cell) (cell_field m tm jcell)"
proof -
  from h_get_dict [OF g x rep_Int, of "''columnId''" 0] obtain cid where cid:
    "h_get h cell ''columnId'' (VInt 0) = Inr cid"
    "rep h0 cid (dict_get jcell ''columnId'' (JInt 0))" by blast
  note k1 = h_key_rep [OF cid(2)]
  show ?thesis
  proof (cases "h_key cid")
    case (Inl e)
    with rel_sum_InlD [OF k1 Inl] cid show ?thesis
      by (simp add: st_cell_field_def cell_field_def)
  next
    case k: (Inr k)
    from rel_sum_InrD [OF k1 k] obtain jk where jk:
      "dict_key (dict_get jcell ''columnId'' (JInt 0)) = Inr jk" "atom k = Some jk" by blast
    note l = dict_lookup_table [OF tc jk(2) rep_Str [of h0 "[]"]]
    note k2 = h_key_rep [OF l]
    show ?thesis
    proof (cases "h_key (dict_lookup h c k (VStr []))")
      case (Inl e)
      with rel_sum_InlD [OF k2 Inl] cid k jk show ?thesis
        by (simp add: st_cell_field_def cell_field_def)
    next
      case ct: (Inr ct)
      from rel_sum_InrD [OF k2 ct] obtain jct where jct:
        "dict_key (case m jk of None \<Rightarrow> JStr [] | Some v \<Rightarrow> v) = Inr jct"
        "atom ct = Some jct" by blast
      from dict_lookup_names [OF tn jct(2)] cid k jk ct jct(1) show ?thesis
        by (simp add: st_cell_field_def cell_field_def)
    qed
  qed
qed

lemma st_cell_value_rep:
  assumes g: "grows {} h0 h" and x: "rep h0 cell (JObj jcell)"
  shows "\<exists>v. st_cell_value h cell = Inr v \<and> rep h0 v (cell_value jcell)"
proof -
  from h_get_dict [OF g x rep_None, of "''displayValue''"] obtain dv where dv:
    "h_get h cell ''displayValue'' VNone = Inr dv"
    "rep h0 dv (dict_get jcell ''displayValue'' JNull)" by blast
  from h_get_dict [OF g x rep_None, of "''value''"] obtain vv where vv:
    "h_get h cell ''value'' VNone = Inr vv"
    "rep h0 vv (dict_get jcell ''value'' JNull)" by blast
  from dv vv h_truthy_rep [OF g dv(2)] h_truthy_rep [OF g vv(2)] show ?thesis
    by (auto simp: st_cell_value_def cell_value_def py_or_def intro: rep.intros)
qed

lemma entries_rep_update:
  assumes "entries_rep h0 kvs kjs" and "rep h0 v jv"
  shows "entries_rep h0 (AList.update (VStr f) v kvs) (AList.update f jv kjs)"
  using assms unfolding entries_rep_def
  by (induction rule: list_all2_induct) auto

lemma record_rep_setitem:
  assumes "record_rep h0 h r rcd" and "rep h0 v jv"
  shows "record_rep h0 (dict_setitem h r (VStr f) v) r (AList.update f jv rcd)"
proof -
  from assms(1) obtain kvs where kvs: "obj_at h (VRef r) = Some (DictObj kvs)"
    "entries_rep h0 kvs rcd"
    unfolding record_rep_def by blast
  from obj_at_setitem_same [OF kvs(1)] entries_rep_update [OF kvs(2) assms(2)]
  show ?thesis unfolding record_rep_def by blast
qed

lemma st_process_cell_rep:
  assumes g: "grows {} h0 h" and tc: "table_rep h0 h c m" and tn: "names_rep h t tm"
    and rr: "record_rep h0 h r rcd" and x: "rep h0 cell jcell"
    and run: "st_process_cell h c t r cell = (res, h')"
  shows "rel_sum (=) (\<lambda>u rcd'. record_rep h0 h' r rcd') res (process_cell m tm rcd jcell)"
proof (cases "\<exists>d. jcell = JObj d")
  case False
  then have p: "process_cell m tm rcd jcell = Inl AttributeError"
    "py_get jcell ''columnId'' (JInt 0) = Inl AttributeError"
    by (cases jcell; simp)+
  from h_get_rep [OF g x rep_Int, of "''columnId''" 0] p(2)
  have "h_get h cell ''columnId'' (VInt 0) = Inl AttributeError"
    by (cases "h_get h cell ''columnId'' (VInt 0)") auto
  with run p(1) show ?thesis by (auto simp: st_process_cell_def st_cell_field_def)
next
  case True
  then obtain d where d: "jcell = JObj d" ..
  note x' = x [unfolded d]
  note f = st_cell_field_rep [OF g tc tn x']
  show ?thesis
  proof (cases "st_cell_field h c t cell")
    case (Inl e)
    with rel_sum_InlD [OF f Inl] run d show ?thesis by (auto simp: st_process_cell_def)
  next
    case (Inr field)
    from rel_sum_InrD [OF f Inr] obtain jf where jf: "cell_field m tm d = Inr jf"
      "field = (case jf of None \<Rightarrow> VNone | Some s \<Rightarrow> VStr s)" by blast
    from st_cell_value_rep [OF g x'] obtain v where v: "st_cell_value h cell = Inr v"
      "rep h0 v (cell_value d)" by blast
    show ?thesis
    proof (cases jf)
      case None
      with run Inr jf d rr show ?thesis by (auto simp: st_process_cell_def h_truthy_def)
    next
      case (Some s)
      show ?thesis
      proof (cases "s = []")
        case True
        with Some run Inr jf d rr show ?thesis by (auto simp: st_process_cell_def h_truthy_def)
      next
        case False
        with Some run Inr jf v have "res = Inr ()" "h' = dict_setitem h r (VStr s) v"
          by (auto simp: st_process_cell_def h_truthy_def)
        with record_rep_setitem [OF rr v(2), of s] False Some jf d show ?thesis by simp
      qed
    qed
  qed
qed

lemma st_cells_loop_rep:
  assumes "list_all2 (rep h0) cells jcells"
  shows "grows {} h0 h \<Longrightarrow> length h0 \<le> r \<Longrightarrow> table_rep h0 h c m \<Longrightarrow> names_rep h t tm \<Longrightarrow>
         record_rep h0 h r rcd \<Longrightarrow> c \<noteq> r \<Longrightarrow> t \<noteq> r \<Longrightarrow>
         st_cells_loop h c t r cells = (res, h') \<Longrightarrow>
         rel_sum (=) (\<lambda>u rcd'. record_rep h0 h' r rcd') res (cells_loop m tm rcd jcells)"
  using assms
proof (induction cells jcells arbitrary: h rcd rule: list_all2_induct)
  case Nil
  then show ?case by auto
next
  case (Cons cell cells jcell jcells)
  obtain r1 h1 where p: "st_process_cell h c t r cell = (r1, h1)"
    by (cases "st_process_cell h c t r cell")
  note s = st_process_cell_rep [OF Cons.prems(1,3,4,5) Cons.hyps(1) p]
  note run = \<open>st_cells_loop h c t r (cell # cells) = (res, h')\<close>
  show ?case
  proof (cases r1)
    case (Inl e)
    with rel_sum_InlD [OF s Inl] run p show ?thesis by auto
  next
    case (Inr u)
    from rel_sum_InrD [OF s Inr] obtain rcd1 where rcd1:
      "process_cell m tm rcd jcell = Inr rcd1" "record_rep h0 h1 r rcd1" by blast
    note gp = st_process_cell_grows [OF p]
    have g1: "grows {} h0 h1"
      by (rule grows_step [OF Cons.prems(1) gp]) (use Cons.prems(2) in simp)
    have tc: "table_rep h0 h1 c m"
      by (rule table_rep_grows [OF Cons.prems(3) gp]) (use Cons.prems(6) in simp)
    have tn: "names_rep h1 t tm"
      by (rule names_rep_grows [OF Cons.prems(4) gp]) (use Cons.prems(7) in simp)
    from run p Inr have run1: "st_cells_loop h1 c t r cells = (res, h')" by simp
    have e: "cells_loop m tm rcd (jcell # jcells) = cells_loop m tm rcd1 jcells"
      using rcd1(1) by simp
    show ?thesis unfolding e
      by (rule Cons.IH [OF g1 Cons.prems(2) tc tn rcd1(2) Cons.prems(6,7) run1])
  qed
qed

lemma build_record_iter:
  "build_record m tm idx jrow =
     (case (case py_get jrow ''cells'' (JArr []) of Inl e \<Rightarrow> Inl e | Inr cs \<Rightarrow> py_iter cs) of
        Inl e \<Rightarrow> Inl e
      | Inr cells \<Rightarrow> cells_loop m tm [(''id'', JInt idx)] cells)"
  by (simp add: build_record_def split: sum.splits)

lemma st_build_record_rep:
  assumes g: "grows {} h0 h" and tc: "table_rep h0 h c m" and tn: "names_rep h t tm"
    and x: "rep h0 row jrow" and run: "st_build_record h c t idx row = (res, h')"
  shows "rel_sum (=) (\<lambda>a rcd. record_rep h0 h' a rcd \<and> a = length h) res
           (build_record m tm idx jrow)"
proof -
  let ?h1 = "h @ [DictObj [(VStr ''id'', VInt idx)]]"
  note ga = grows_append [of h "[DictObj [(VStr ''id'', VInt idx)]]"]
  have g1: "grows {} h0 ?h1" using grows_trans [OF g ga] by simp
  obtain r2 h2 where gl: "h_get_new_list ?h1 row ''cells'' = (r2, h2)"
    by (cases "h_get_new_list ?h1 row ''cells''")
  note g12 = h_get_new_list_grows [OF gl]
  have g2: "grows {} h0 h2" using grows_trans [OF g1 g12] by simp
  have gh2: "grows {} h h2" using grows_trans [OF ga g12] by simp
  let ?it = "case r2 of Inl e \<Rightarrow> Inl e | Inr cs \<Rightarrow> h_iter h2 cs"
  note it = iter_get_rep [OF g1 x gl]
  from tc have c: "c < length h" by (auto simp: table_rep_def obj_at_Some)
  from tn have t: "t < length h" by (auto simp: names_rep_def obj_at_Some)
  show ?thesis
  proof (cases ?it)
    case (Inl e)
    with run gl have "res = Inl e"
      by (auto simp: st_build_record_def alloc_def split: sum.splits)
    with rel_sum_InlD [OF it Inl] show ?thesis by (simp add: build_record_iter)
  next
    case (Inr cells)
    from rel_sum_InrD [OF it Inr] obtain jcells where jcells:
      "(case py_get jrow ''cells'' (JArr []) of Inl e \<Rightarrow> Inl e | Inr cs \<Rightarrow> py_iter cs) =
         Inr jcells"
      "list_all2 (rep h0) cells jcells" by blast
    obtain r3 h3 where l: "st_cells_loop h2 c t (length h) cells = (r3, h3)"
      by (cases "st_cells_loop h2 c t (length h) cells")
    have tc2: "table_rep h0 h2 c m" by (rule table_rep_grows [OF tc gh2]) simp
    have tn2: "names_rep h2 t tm" by (rule names_rep_grows [OF tn gh2]) simp
    have "record_rep h0 ?h1 (length h) [(''id'', JInt idx)]"
      by (simp add: record_rep_def obj_at_def entries_rep_def rep.intros)
    then have rr: "record_rep h0 h2 (length h) [(''id'', JInt idx)]"
      by (rule record_rep_grows [OF _ g12]) simp
    have h0h: "length h0 \<le> length h" using g by (rule grows_length)
    from c t have ne: "c \<noteq> length h" "t \<noteq> length h" by simp_all
    note s = st_cells_loop_rep [OF jcells(2) g2 h0h tc2 tn2 rr ne l]
    from run gl Inr l have r: "res = (case r3 of Inl e \<Rightarrow> Inl e | Inr u \<Rightarrow> Inr (length h))"
      "h' = h3"
      by (auto simp: st_build_record_def alloc_def split: sum.splits)
    show ?thesis
    proof (cases r3)
      case (Inl e)
      with rel_sum_InlD [OF s Inl] r jcells(1) show ?thesis
        by (simp add: build_record_iter)
    next
      case (Inr u)
      with rel_sum_InrD [OF s Inr] r jcells(1) show ?thesis
        by (auto simp: build_record_iter)
    qed
  qed
qed

subsection \<open>Rows\<close>

lemma use_cases_rep_grows:
  assumes "use_cases_rep h0 h u recs" and "grows {} h h'"
  shows "use_cases_rep h0 h' u recs"
proof -
  from assms(1) obtain vs where vs: "obj_at h (VRef u) = Some (ListObj vs)"
    "list_all2 (\<lambda>v rcd. \<exists>r. v = VRef r \<and> r \<noteq> u \<and> record_rep h0 h r rcd) vs recs"
    unfolding use_cases_rep_def by blast
  from vs(2) have "list_all2 (\<lambda>v rcd. \<exists>r. v = VRef r \<and> r \<noteq> u \<and> record_rep h0 h' r rcd) vs recs"
    by (rule list_all2_mono) (use assms(2) in \<open>auto intro: record_rep_grows\<close>)
  moreover have "obj_at h' (VRef u) = Some (ListObj vs)"
    by (rule obj_at_grows_other [OF assms(2) _ vs(1)]) simp
  ultimately show ?thesis unfolding use_cases_rep_def by blast
qed

lemma use_cases_rep_append:
  assumes "use_cases_rep h0 h u recs" and "record_rep h0 h r rcd" and "r \<noteq> u"
  shows "use_cases_rep h0 (list_append h u (VRef r)) u (recs @ [rcd])"
proof -
  let ?h = "list_append h u (VRef r)"
  from assms(1) obtain vs where vs: "obj_at h (VRef u) = Some (ListObj vs)"
    "list_all2 (\<lambda>v rcd. \<exists>r. v = VRef r \<and> r \<noteq> u \<and> record_rep h0 h r rcd) vs recs"
    unfolding use_cases_rep_def by blast
  have o: "obj_at ?h (VRef u) = Some (ListObj (vs @ [VRef r]))"
    using vs(1) by (auto simp: list_append_def obj_at_def split: if_splits)
  note ga = grows_list_append [of u h "VRef r"]
  have old: "record_rep h0 ?h a x" if "record_rep h0 h a x" "a \<noteq> u" for a x
    by (rule record_rep_grows [OF that(1) ga]) (use that(2) in simp)
  from vs(2) have "list_all2 (\<lambda>v rcd. \<exists>r. v = VRef r \<and> r \<noteq> u \<and> record_rep h0 ?h r rcd) vs recs"
    by (rule list_all2_mono) (auto intro: old)
  moreover have "list_all2 (\<lambda>v rcd. \<exists>r. v = VRef r \<and> r \<noteq> u \<and> record_rep h0 ?h r rcd)
                   [VRef r] [rcd]"
    using old [OF assms(2,3)] assms(3) by simp
  ultimately have "list_all2 (\<lambda>v rcd. \<exists>r. v = VRef r \<and> r \<noteq> u \<and> record_rep h0 ?h r rcd)
                     (vs @ [VRef r]) (recs @ [rcd])"
    by (rule list_all2_appendI)
  with o show ?thesis unfolding use_cases_rep_def by blast
qed

lemma h_get_record:
  assumes "record_rep h0 h r rcd" and "rep h0 d dj"
  shows "\<exists>v. h_get h (VRef r) k d = Inr v \<and> rep h0 v (dict_get rcd k dj)"
proof -
  from assms(1) obtain kvs where kvs: "obj_at h (VRef r) = Some (DictObj kvs)"
    "entries_rep h0 kvs rcd"
    unfolding record_rep_def by blast
  from entries_lookup [OF kvs(2), of k] kvs(1) assms(2) show ?thesis
    by (cases "map_of kvs (VStr k)"; cases "map_of rcd k") (auto simp: h_get_def dict_get_def)
qed

lemma name_test_rep:
  assumes g: "grows {} h0 h" and rr: "record_rep h0 h r rcd"
  shows "h_truthy h (dict_lookup h r (VStr ''name'') VNone) = has_name rcd"
proof -
  from rr obtain kvs where kvs: "obj_at h (VRef r) = Some (DictObj kvs)"
    "entries_rep h0 kvs rcd"
    unfolding record_rep_def by blast
  note l = entries_lookup [OF kvs(2), of "''name''"]
  show ?thesis
  proof (cases "map_of kvs (VStr ''name'')")
    case None
    with l have "map_of rcd ''name'' = None" by (cases "map_of rcd ''name''") auto
    with None kvs(1) show ?thesis
      by (simp add: dict_lookup_def has_name_def dict_get_def h_truthy_def)
  next
    case (Some v)
    with l obtain jv where jv: "map_of rcd ''name'' = Some jv" "rep h0 v jv"
      by (cases "map_of rcd ''name''") auto
    from h_truthy_rep [OF g jv(2)] Some jv(1) kvs(1) show ?thesis
      by (simp add: dict_lookup_def has_name_def dict_get_def)
  qed
qed

lemma st_rows_loop_rep:
  assumes "list_all2 (rep h0) rows jrows"
  shows "grows {} h0 h \<Longrightarrow> length h0 \<le> u \<Longrightarrow> table_rep h0 h c m \<Longrightarrow> names_rep h t tm \<Longrightarrow>
         use_cases_rep h0 h u acc \<Longrightarrow> c \<noteq> u \<Longrightarrow> t \<noteq> u \<Longrightarrow>
         st_rows_loop h c t u idx rows = (res, h') \<Longrightarrow>
         rel_sum (=) (\<lambda>x ucs. use_cases_rep h0 h' u (acc @ ucs)) res (rows_loop m tm idx jrows)"
  using assms
proof (induction rows jrows arbitrary: h acc idx rule: list_all2_induct)
  case Nil
  then show ?case by auto
next
  case (Cons row rows jrow jrows)
  obtain r1 h1 where b: "st_build_record h c t idx row = (r1, h1)"
    by (cases "st_build_record h c t idx row")
  note s = st_build_record_rep [OF Cons.prems(1,3,4) Cons.hyps(1) b]
  note run = \<open>st_rows_loop h c t u idx (row # rows) = (res, h')\<close>
  show ?case
  proof (cases r1)
    case (Inl e)
    with rel_sum_InlD [OF s Inl] run b show ?thesis by auto
  next
    case (Inr a)
    from rel_sum_InrD [OF s Inr] obtain rcd where rcd:
      "build_record m tm idx jrow = Inr rcd" "record_rep h0 h1 a rcd" "a = length h" by blast
    note gb = st_build_record_grows [OF b]
    have g1: "grows {} h0 h1" using grows_trans [OF Cons.prems(1) gb] by simp
    have tc1: "table_rep h0 h1 c m" by (rule table_rep_grows [OF Cons.prems(3) gb]) simp
    have tn1: "names_rep h1 t tm" by (rule names_rep_grows [OF Cons.prems(4) gb]) simp
    have uc1: "use_cases_rep h0 h1 u acc" by (rule use_cases_rep_grows [OF Cons.prems(5) gb])
    from Cons.prems(5) have "u < length h" by (auto simp: use_cases_rep_def obj_at_Some)
    with rcd(3) have au: "a \<noteq> u" by simp
    let ?h2 = "if h_truthy h1 (dict_lookup h1 a (VStr ''name'') VNone)
               then list_append h1 u (VRef a) else h1"
    let ?acc2 = "if has_name rcd then acc @ [rcd] else acc"
    note nt = name_test_rep [OF g1 rcd(2)]
    have gu: "grows {u} h1 ?h2" by (simp add: grows_list_append grows_refl)
    have g2: "grows {} h0 ?h2"
      by (rule grows_step [OF g1 gu]) (use Cons.prems(2) in simp)
    have tc2: "table_rep h0 ?h2 c m"
      by (rule table_rep_grows [OF tc1 gu]) (use Cons.prems(6) in simp)
    have tn2: "names_rep ?h2 t tm"
      by (rule names_rep_grows [OF tn1 gu]) (use Cons.prems(7) in simp)
    have uc2: "use_cases_rep h0 ?h2 u ?acc2"
      using nt uc1 use_cases_rep_append [OF uc1 rcd(2) au] by simp
    from run b Inr have run1: "st_rows_loop ?h2 c t u (idx + 1) rows = (res, h')" by simp
    note ih = Cons.IH [OF g2 Cons.prems(2) tc2 tn2 uc2 Cons.prems(6,7) run1]
    show ?thesis
    proof (cases "rows_loop m tm (idx + 1) jrows")
      case (Inl e)
      with ih rcd(1) show ?thesis by (cases res) auto
    next
      case (Inr ucs)
      with ih rcd(1) show ?thesis by (cases res) auto
    qed
  qed
qed

subsection \<open>The returned dict\<close>

lemma st_status_list_rep:
  assumes "list_all2 (\<lambda>v rcd. \<exists>r. v = VRef r \<and> r \<noteq> u \<and> record_rep h0 h r rcd) vs recs"
  shows "\<exists>ss. st_status_list h vs = Inr ss \<and> list_all2 (rep h0) ss (statuses recs)"
  using assms
proof (induction rule: list_all2_induct)
  case Nil
  then show ?case by (simp add: statuses_def)
next
  case (Cons v vs rcd recs)
  from Cons.hyps(1) obtain r where r: "v = VRef r" "record_rep h0 h r rcd" by blast
  from h_get_record [OF r(2) rep_Str [of h0 "[]"], of "''status''"] obtain s where s:
    "h_get h (VRef r) ''status'' (VStr []) = Inr s"
    "rep h0 s (dict_get rcd ''status'' (JStr []))" by blast
  from Cons.IH obtain ss where ss: "st_status_list h vs = Inr ss"
    "list_all2 (rep h0) ss (statuses recs)" by blast
  from r(1) s ss show ?case by (simp add: statuses_def)
qed

lemma rep_VStr_iff: "rep h0 v j \<Longrightarrow> (v = VStr s) = (j = JStr s)"
  by (cases rule: rep.cases) auto

lemma count_list_rep:
  "list_all2 (rep h0) ss js \<Longrightarrow> count_list ss (VStr s) = count_list js (JStr s)"
  by (induction rule: list_all2_induct) (auto dest: rep_VStr_iff)

lemma entries_rep_grows:
  assumes "entries_rep h0 kvs kjs" and "grows {} h0 h"
  shows "entries_rep h kvs kjs"
  using assms(1) unfolding entries_rep_def
  by (rule list_all2_mono) (use assms(2) in \<open>auto intro: rep_grows\<close>)

lemma record_rep_rep:
  assumes "record_rep h0 h r rcd" and "grows {} h0 h"
  shows "rep h (VRef r) (JObj rcd)"
proof -
  from assms(1) obtain kvs where kvs: "obj_at h (VRef r) = Some (DictObj kvs)"
    "entries_rep h0 kvs rcd"
    unfolding record_rep_def by blast
  from kvs(1) have "r < length h" "h ! r = DictObj kvs" by (simp_all add: obj_at_Some)
  then show ?thesis
    by (rule rep_Dict) (rule entries_rep_grows [OF kvs(2) assms(2), unfolded entries_rep_def])
qed

lemma use_cases_rep_rep:
  assumes "use_cases_rep h0 h u recs" and "grows {} h0 h"
  shows "rep h (VRef u) (JArr (map JObj recs))"
proof -
  from assms(1) obtain vs where vs: "obj_at h (VRef u) = Some (ListObj vs)"
    "list_all2 (\<lambda>v rcd. \<exists>r. v = VRef r \<and> r \<noteq> u \<and> record_rep h0 h r rcd) vs recs"
    unfolding use_cases_rep_def by blast
  from vs(2) have "list_all2 (\<lambda>v rcd. rep h v (JObj rcd)) vs recs"
    by (rule list_all2_mono) (use assms(2) in \<open>auto intro: record_rep_rep\<close>)
  then have l: "list_all2 (rep h) vs (map JObj recs)" by (simp add: list_all2_map2)
  from vs(1) have "u < length h" "h ! u = ListObj vs" by (simp_all add: obj_at_Some)
  then show ?thesis using l by (rule rep_List)
qed

lemma list_items_append:
  "obj_at h (VRef u) = Some ob \<Longrightarrow> list_items (h @ xs) u = list_items h u"
  by (auto simp: list_items_def obj_at_def nth_append split: if_splits)

lemma st_return_rep:
  assumes g: "grows {} h0 h" and uc: "use_cases_rep h0 h u ucs" and x: "rep h0 sheet sj"
    and run: "st_return h sheet u = (r, h')"
  shows "rel_sum (=) (rep h') r
           (case py_get sj ''name'' (JStr ''AI Use Cases'') of
              Inl e \<Rightarrow> Inl e
            | Inr title \<Rightarrow> Inr (returned_dict title ucs))"
proof -
  from uc obtain vs where vs: "obj_at h (VRef u) = Some (ListObj vs)"
    "list_all2 (\<lambda>v rcd. \<exists>r. v = VRef r \<and> r \<noteq> u \<and> record_rep h0 h r rcd) vs ucs"
    unfolding use_cases_rep_def by blast
  from vs(1) have li: "list_items h u = vs" by (simp add: list_items_def)
  from st_status_list_rep [OF vs(2)] obtain ss where ss: "st_status_list h vs = Inr ss"
    "list_all2 (rep h0) ss (statuses ucs)" by blast
  let ?h2 = "h @ [ListObj ss, st_summary vs ss]"
  have g2: "grows {} h0 ?h2" using grows_trans [OF g grows_append] by simp
  note n = h_get_rep [OF g2 x rep_Str [of h0 "''AI Use Cases''"], of "''name''"]
  from list_items_append [OF vs(1), of "[ListObj ss]"] li
  have li1: "list_items (h @ [ListObj ss]) u = vs" by simp
  show ?thesis
  proof (cases "h_get ?h2 sheet ''name'' (VStr ''AI Use Cases'')")
    case (Inl e)
    with run ss li li1 have "r = Inl e" by (simp add: st_return_def alloc_def)
    with rel_sum_InlD [OF n Inl] show ?thesis by simp
  next
    case (Inr title)
    from rel_sum_InrD [OF n Inr] obtain jt where jt:
      "py_get sj ''name'' (JStr ''AI Use Cases'') = Inr jt" "rep h0 title jt" by blast
    let ?md = "DictObj [(VStr ''title'', title),
                        (VStr ''source'', VStr ''Smartsheet (live)''),
                        (VStr ''last_updated'', VStr ''live'')]"
    let ?ret = "DictObj [(VStr ''metadata'', VRef (length h + 2)),
                         (VStr ''summary'', VRef (length h + 1)),
                         (VStr ''use_cases'', VRef u)]"
    from run ss li li1 Inr have r: "r = Inr (VRef (length h + 3))"
      and h': "h' = h @ [ListObj ss, st_summary vs ss, ?md, ?ret]"
      by (auto simp: st_return_def alloc_def)
    have gh: "grows {} h h'" unfolding h' by (rule grows_append)
    have g': "grows {} h0 h'" using grows_trans [OF g gh] by simp
    have len: "length vs = length ucs" using vs(2) by (rule list_all2_lengthD)
    have a_md: "rep h' (VRef (length h + 2))
                  (JObj [(''title'', jt), (''source'', JStr ''Smartsheet (live)''),
                         (''last_updated'', JStr ''live'')])"
    proof (rule rep_Dict)
      show "length h + 2 < length h'" by (simp add: h')
      show "h' ! (length h + 2) = ?md" unfolding h' by (simp add: nth_append)
      show "list_all2 (\<lambda>kv kj. fst kv = VStr (fst kj) \<and> rep h' (snd kv) (snd kj))
              [(VStr ''title'', title), (VStr ''source'', VStr ''Smartsheet (live)''),
               (VStr ''last_updated'', VStr ''live'')]
              [(''title'', jt), (''source'', JStr ''Smartsheet (live)''),
               (''last_updated'', JStr ''live'')]"
        using rep_grows [OF g' jt(2)] by (simp add: rep.intros)
    qed
    have a_sum: "rep h' (VRef (length h + 1)) (JObj (summary ucs))"
    proof (rule rep_Dict)
      show "length h + 1 < length h'" by (simp add: h')
      show "h' ! (length h + 1) =
              DictObj
               [(VStr ''total_initiatives'', VInt (int (length vs))),
                (VStr ''in_production'', VInt (int (count_list ss (VStr ''In Production'')))),
                (VStr ''poc_done'', VInt (int (count_list ss (VStr ''POC Done'')))),
                (VStr ''poc_in_progress'', VInt (int (count_list ss (VStr ''POC In Progress''))))]"
        unfolding h' by (simp add: nth_append st_summary_def)
      show "list_all2 (\<lambda>kv kj. fst kv = VStr (fst kj) \<and> rep h' (snd kv) (snd kj))
               [(VStr ''total_initiatives'', VInt (int (length vs))),
                (VStr ''in_production'', VInt (int (count_list ss (VStr ''In Production'')))),
                (VStr ''poc_done'', VInt (int (count_list ss (VStr ''POC Done'')))),
                (VStr ''poc_in_progress'', VInt (int (count_list ss (VStr ''POC In Progress''))))]
               (summary ucs)"
        by (simp add: summary_def len count_list_rep [OF ss(2)] rep.intros)
    qed
    have a_uc: "rep h' (VRef u) (JArr (map JObj ucs))"
      by (rule use_cases_rep_rep [OF use_cases_rep_grows [OF uc gh] g'])
    have "rep h' (VRef (length h + 3)) (returned_dict jt ucs)"
      unfolding returned_dict_def
    proof (rule rep_Dict)
      show "length h + 3 < length h'" by (simp add: h')
      show "h' ! (length h + 3) = ?ret" unfolding h' by (simp add: nth_append)
      show "list_all2 (\<lambda>kv kj. fst kv = VStr (fst kj) \<and> rep h' (snd kv) (snd kj))
              [(VStr ''metadata'', VRef (length h + 2)),
               (VStr ''summary'', VRef (length h + 1)),
               (VStr ''use_cases'', VRef u)]
              [(''metadata'', JObj [(''title'', jt), (''source'', JStr ''Smartsheet (live)''),
                                   (''last_updated'', JStr ''live'')]),
               (''summary'', JObj (summary ucs)),
               (''use_cases'', JArr (map JObj ucs))]"
        using a_md a_sum a_uc by simp
    qed
    with r jt(1) show ?thesis by simp
  qed
qed

subsection \<open>The whole transformation\<close>

lemma st_parse_rows_rep:
  assumes g: "grows {} h0 h" and tc: "table_rep h0 h c m" and x: "rep h0 sheet sj"
    and y: "rep h0 col_map cj" and run: "st_parse_rows h c sheet col_map = (r, h')"
  shows "rel_sum (=) (rep h') r (parse_rows m sj cj)"
proof -
  obtain r1 h1 where t: "st_title_to_field h col_map = (r1, h1)"
    by (cases "st_title_to_field h col_map")
  note s1 = st_title_to_field_rep [OF g y t]
  note gt = st_title_to_field_grows [OF t]
  show ?thesis
  proof (cases r1)
    case (Inl e)
    with run t have "r = Inl e" by (simp add: st_parse_rows_def)
    with rel_sum_InlD [OF s1 Inl] show ?thesis by (simp add: parse_rows_def)
  next
    case tt: (Inr tt)
    from rel_sum_InrD [OF s1 tt] obtain tm where tm:
      "title_to_field cj = Inr tm" "names_rep h1 tt tm" by blast
    let ?u = "length h1"
    let ?h2 = "h1 @ [ListObj []]"
    have g1: "grows {} h0 h1" using grows_trans [OF g gt] by simp
    have g2: "grows {} h0 ?h2" using grows_trans [OF g1 grows_append] by simp
    obtain r3 h3 where gl: "h_get_new_list ?h2 sheet ''rows'' = (r3, h3)"
      by (cases "h_get_new_list ?h2 sheet ''rows''")
    note g23 = h_get_new_list_grows [OF gl]
    have g3: "grows {} h0 h3" using grows_trans [OF g2 g23] by simp
    have g13: "grows {} h1 h3" using grows_trans [OF grows_append g23] by simp
    have gh3: "grows {} h h3" using grows_trans [OF gt g13] by simp
    let ?it = "case r3 of Inl e \<Rightarrow> Inl e | Inr rs \<Rightarrow> h_iter h3 rs"
    have it: "rel_sum (=) (list_all2 (rep h0)) ?it (sheet_rows sj)"
      unfolding sheet_rows_def by (rule iter_get_rep [OF g2 x gl])
    show ?thesis
    proof (cases ?it)
      case (Inl e)
      with run t tt gl have "r = Inl e"
        by (auto simp: st_parse_rows_def alloc_def split: sum.splits)
      with rel_sum_InlD [OF it Inl] tm(1) show ?thesis by (simp add: parse_rows_def)
    next
      case (Inr rows)
      from rel_sum_InrD [OF it Inr] obtain jrows where jrows:
        "sheet_rows sj = Inr jrows" "list_all2 (rep h0) rows jrows" by blast
      obtain r4 h4 where l: "st_rows_loop h3 c tt ?u 1 rows = (r4, h4)"
        by (cases "st_rows_loop h3 c tt ?u 1 rows")
      have tc3: "table_rep h0 h3 c m" by (rule table_rep_grows [OF tc gh3]) simp
      have tn3: "names_rep h3 tt tm" by (rule names_rep_grows [OF tm(2) g13]) simp
      have "use_cases_rep h0 ?h2 ?u []" by (simp add: use_cases_rep_def obj_at_def)
      then have uc3: "use_cases_rep h0 h3 ?u []" by (rule use_cases_rep_grows [OF _ g23])
      from tc have "c < length h" by (auto simp: table_rep_def obj_at_Some)
      with grows_length [OF gt] have cu: "c \<noteq> ?u" by simp
      from tm(2) have tu: "tt \<noteq> ?u" by (auto simp: names_rep_def obj_at_Some)
      have h0u: "length h0 \<le> ?u" using g1 by (rule grows_length)
      note s4 = st_rows_loop_rep [OF jrows(2) g3 h0u tc3 tn3 uc3 cu tu l]
      show ?thesis
      proof (cases r4)
        case (Inl e)
        with run t tt gl Inr l have "r = Inl e"
          by (auto simp: st_parse_rows_def alloc_def split: sum.splits)
        with rel_sum_InlD [OF s4 Inl] tm(1) jrows(1) show ?thesis
          by (simp add: parse_rows_def)
      next
        case u: (Inr u)
        from rel_sum_InrD [OF s4 u] obtain ucs where ucs:
          "rows_loop m tm 1 jrows = Inr ucs" "use_cases_rep h0 h4 ?u ucs" by auto
        from run t tt gl Inr l u have ret: "st_return h4 sheet ?u = (r, h')"
          by (auto simp: st_parse_rows_def alloc_def split: sum.splits)
        have g4: "grows {} h0 h4"
          by (rule grows_step [OF g3 st_rows_loop_grows [OF l]]) (use h0u in simp)
        from st_return_rep [OF g4 ucs(2) x ret] tm(1) jrows(1) ucs(1) show ?thesis
          by (simp add: parse_rows_def)
      qed
    qed
  qed
qed

lemma st_transform_server_rep:
  assumes x: "rep h sheet sj" and y: "rep h col_map cj"
    and run: "st_transform_server h sheet col_map = (r, h')"
  shows "rel_sum (=) (rep h') r (transform_server sj cj)"
proof -
  obtain r1 h1 where c: "st_col_id_to_title_server h sheet = (r1, h1)"
    by (cases "st_col_id_to_title_server h sheet")
  note s = st_col_id_to_title_server_rep [OF grows_refl x c]
  note g1 = st_col_id_to_title_server_grows [OF c]
  show ?thesis
  proof (cases r1)
    case (Inl e)
    with run c have "r = Inl e" by (simp add: st_transform_server_def)
    with rel_sum_InlD [OF s Inl] show ?thesis by (simp add: transform_server_def)
  next
    case (Inr cc)
    from rel_sum_InrD [OF s Inr] obtain m where m:
      "col_id_to_title_server sj = Inr m" "table_rep h h1 cc m" by blast
    from run c Inr have "st_parse_rows h1 cc sheet col_map = (r, h')"
      by (simp add: st_transform_server_def)
    from st_parse_rows_rep [OF g1 m(2) x y this] m(1) show ?thesis
      by (simp add: transform_server_def)
  qed
qed

lemma st_transform_vercel_rep:
  assumes x: "rep h sheet sj" and y: "rep h col_map cj"
    and run: "st_transform_vercel h sheet col_map = (r, h')"
  shows "rel_sum (=) (rep h') r (transform_vercel sj cj)"
proof -
  obtain r1 h1 where c: "st_col_id_to_title_vercel h sheet = (r1, h1)"
    by (cases "st_col_id_to_title_vercel h sheet")
  note s = st_col_id_to_title_vercel_rep [OF grows_refl x c]
  note g1 = st_col_id_to_title_vercel_grows [OF c]
  show ?thesis
  proof (cases r1)
    case (Inl e)
    with run c have "r = Inl e" by (simp add: st_transform_vercel_def)
    with rel_sum_InlD [OF s Inl] show ?thesis by (simp add: transform_vercel_def)
  next
    case (Inr cc)
    from rel_sum_InrD [OF s Inr] obtain m where m:
      "col_id_to_title_vercel sj = Inr m" "table_rep h h1 cc m" by blast
    from run c Inr have "st_parse_rows h1 cc sheet col_map = (r, h')"
      by (simp add: st_transform_vercel_def)
    from st_parse_rows_rep [OF g1 m(2) x y this] m(1) show ?thesis
      by (simp add: transform_vercel_def)
  qed
qed

text \<open>A value stands for one JSON value only.\<close>

lemma rep_unique: "rep h v j \<Longrightarrow> rep h v j' \<Longrightarrow> j = j'"
proof (induction arbitrary: j' rule: rep.induct)
  case (rep_List a vs js)
  from rep_List(4) rep_List(1,2) obtain js' where js': "j' = JArr js'" "list_all2 (rep h) vs js'"
    by (cases rule: rep.cases) auto
  from rep_List(3) js'(2) have "js = js'"
  proof (induction vs js arbitrary: js' rule: list_all2_induct)
    case Nil
    then show ?case by simp
  next
    case (Cons v vs j js)
    from Cons.prems obtain k ks where k: "js' = k # ks" "rep h v k" "list_all2 (rep h) vs ks"
      by (cases js') auto
    with Cons.hyps(1) Cons.IH [OF k(3)] show ?case by simp
  qed
  with js'(1) show ?case by simp
next
  case (rep_Dict a kvs kjs)
  from rep_Dict(4) rep_Dict(1,2) obtain kjs' where kjs': "j' = JObj kjs'"
    "list_all2 (\<lambda>kv kj. fst kv = VStr (fst kj) \<and> rep h (snd kv) (snd kj)) kvs kjs'"
    by (cases rule: rep.cases) auto
  from rep_Dict(3) kjs'(2) have "kjs = kjs'"
  proof (induction kvs kjs arbitrary: kjs' rule: list_all2_induct)
    case Nil
    then show ?case by simp
  next
    case (Cons kv kvs kj kjs)
    from Cons.prems obtain k ks where k: "kjs' = k # ks"
      "fst kv = VStr (fst k)" "rep h (snd kv) (snd k)"
      "list_all2 (\<lambda>kv kj. fst kv = VStr (fst kj) \<and> rep h (snd kv) (snd kj)) kvs ks"
      by (cases kjs') auto
    from Cons.hyps(1) k(2,3) have "kj = k" by (auto simp: prod_eq_iff)
    with k(1) Cons.IH [OF k(4)] show ?case by simp
  qed
  with kjs'(1) show ?case by simp
qed (auto elim: rep.cases)

lemma rel_sum_rep_grows:
  "rel_sum (=) (rep h) r out \<Longrightarrow> grows {} h h' \<Longrightarrow> rel_sum (=) (rep h') r out"
  by (cases r; cases out) (auto intro: rep_grows)

lemma stands_for_eq: "rel_sum (=) (rep h) r out \<Longrightarrow> stands_for h r = {out}"
proof -
  assume a: "rel_sum (=) (rep h) r out"
  have "out' = out" if "rel_sum (=) (rep h) r out'" for out'
    using a that by (cases r; cases out; cases out') (auto dest: rep_unique)
  with a show ?thesis unfolding stands_for_def by blast
qed

lemma stands_for_Inr: "stands_for h (Inr v) = {Inr j} \<Longrightarrow> rep h v j"
proof -
  assume "stands_for h (Inr v) = {Inr j}"
  then have "Inr j \<in> stands_for h (Inr v)" by simp
  then show ?thesis by (simp add: stands_for_def)
qed

lemma rep_Ref_iff:
  "rep h (VRef a) j \<longleftrightarrow>
     a < length h \<and>
     (case h ! a of
        ListObj vs \<Rightarrow> (case j of JArr js \<Rightarrow> list_all2 (rep h) vs js | _ \<Rightarrow> False)
      | DictObj kvs \<Rightarrow>
          (case j of
             JObj kjs \<Rightarrow>
               list_all2 (\<lambda>kv kj. fst kv = VStr (fst kj) \<and> rep h (snd kv) (snd kj)) kvs kjs
           | _ \<Rightarrow> False))"
proof
  assume "rep h (VRef a) j"
  then show "a < length h \<and>
     (case h ! a of
        ListObj vs \<Rightarrow> (case j of JArr js \<Rightarrow> list_all2 (rep h) vs js | _ \<Rightarrow> False)
      | DictObj kvs \<Rightarrow>
          (case j of
             JObj kjs \<Rightarrow>
               list_all2 (\<lambda>kv kj. fst kv = VStr (fst kj) \<and> rep h (snd kv) (snd kj)) kvs kjs
           | _ \<Rightarrow> False))"
    by (cases rule: rep.cases) auto
next
  assume "a < length h \<and>
     (case h ! a of
        ListObj vs \<Rightarrow> (case j of JArr js \<Rightarrow> list_all2 (rep h) vs js | _ \<Rightarrow> False)
      | DictObj kvs \<Rightarrow>
          (case j of
             JObj kjs \<Rightarrow>
               list_all2 (\<lambda>kv kj. fst kv = VStr (fst kj) \<and> rep h (snd kv) (snd kj)) kvs kjs
           | _ \<Rightarrow> False))"
  then show "rep h (VRef a) j"
    by (auto intro: rep.intros split: obj.splits json.splits)
qed

lemma rep_scenario:
  "rep scenario_heap (VRef 12) scenario_sheet"
  "rep scenario_heap (VRef 0) scenario_col_map"
  "rep scenario_heap_other (VRef 1) scenario_sheet"
  "rep scenario_heap_other (VRef 2) scenario_col_map"
  by (simp_all add: rep_Ref_iff scenario_heap_def scenario_heap_other_def scenario_sheet_def
      scenario_col_map_def rep.intros)

lemmas st_defs =
  st_transform_server_def st_transform_vercel_def st_col_id_to_title_server_def
  st_col_id_to_title_vercel_def st_parse_rows_def st_title_to_field_def st_build_record_def
  st_process_cell_def st_cell_field_def st_cell_value_def st_return_def st_summary_def
  h_get_new_list_def h_get_def h_getitem_def h_iter_def h_truthy_def dict_lookup_def
  dict_setitem_def list_append_def list_items_def obj_at_def alloc_def

lemma scenario_runs:
  "fst (st_transform_server scenario_heap (VRef 12) (VRef 0)) = Inr (VRef 25)"
  "fst (st_transform_vercel scenario_heap (VRef 12) (VRef 0)) = Inr (VRef 25)"
  "fst (st_transform_server scenario_heap_other (VRef 1) (VRef 2)) = Inr (VRef 26)"
  "fst (st_transform_vercel scenario_heap_other (VRef 1) (VRef 2)) = Inr (VRef 26)"
  by (simp_all add: st_defs scenario_heap_def scenario_heap_other_def)

section \<open>The transformation as a function of its inputs\<close>

text \<open>
  C8. The transformation reads the sheet and the column map in the store and writes
  only to objects it has made itself: after a run every object that was in the store
  before it is there unchanged (the store has only got longer), so the run has no
  effect on the inputs or on any other state of the process. What the run returns
  stands for the value the transformation gives on the JSON values of the sheet and
  the column map, and for no other: it depends on nothing else in the store, neither
  on the addresses nor on what earlier runs left there. So a second run on the same
  objects, in the store the first one left, and a run on equal inputs in another
  store all return the same \<^verbatim>\<open>{metadata, summary, use_cases}\<close> (or raise the same
  exception), and the result of the first run is not touched by the second. This
  holds for both files.
\<close>

theorem transformation_is_pure:
  assumes "rep h sheet sheet_json" and "rep h col_map col_map_json"
    and "rep k sheet' sheet_json" and "rep k col_map' col_map_json"
    and "st_transform_server h sheet col_map = (r1, h1)"
    and "st_transform_server h1 sheet col_map = (r2, h2)"
    and "st_transform_server k sheet' col_map' = (r3, k3)"
    and "st_transform_vercel h sheet col_map = (v1, g1)"
    and "st_transform_vercel g1 sheet col_map = (v2, g2)"
    and "st_transform_vercel k sheet' col_map' = (v3, l3)"
  shows "take (length h) h1 = h \<and> take (length h1) h2 = h1 \<and> take (length k) k3 = k \<and>
         take (length h) g1 = h \<and> take (length g1) g2 = g1 \<and> take (length k) l3 = k \<and>
         stands_for h1 r1 = {transform_server sheet_json col_map_json} \<and>
         stands_for h2 r2 = {transform_server sheet_json col_map_json} \<and>
         stands_for h2 r1 = {transform_server sheet_json col_map_json} \<and>
         stands_for k3 r3 = {transform_server sheet_json col_map_json} \<and>
         stands_for g1 v1 = {transform_vercel sheet_json col_map_json} \<and>
         stands_for g2 v2 = {transform_vercel sheet_json col_map_json} \<and>
         stands_for g2 v1 = {transform_vercel sheet_json col_map_json} \<and>
         stands_for l3 v3 = {transform_vercel sheet_json col_map_json}"
proof -
  note a = st_transform_server_grows [OF assms(5)]
  note b = st_transform_server_grows [OF assms(6)]
  note c = st_transform_server_grows [OF assms(7)]
  note d = st_transform_vercel_grows [OF assms(8)]
  note e = st_transform_vercel_grows [OF assms(9)]
  note f = st_transform_vercel_grows [OF assms(10)]
  have frame: "take (length h) h1 = h" "take (length h1) h2 = h1" "take (length k) k3 = k"
    "take (length h) g1 = h" "take (length g1) g2 = g1" "take (length k) l3 = k"
    using a b c d e f by (simp_all add: grows_take)
  note s1 = st_transform_server_rep [OF assms(1,2,5)]
  note s2 = st_transform_server_rep
    [OF rep_grows [OF a assms(1)] rep_grows [OF a assms(2)] assms(6)]
  note s3 = st_transform_server_rep [OF assms(3,4,7)]
  note t1 = st_transform_vercel_rep [OF assms(1,2,8)]
  note t2 = st_transform_vercel_rep
    [OF rep_grows [OF d assms(1)] rep_grows [OF d assms(2)] assms(9)]
  note t3 = st_transform_vercel_rep [OF assms(3,4,10)]
  note s12 = rel_sum_rep_grows [OF s1 b]
  note t12 = rel_sum_rep_grows [OF t1 e]
  from frame s1 s2 s12 s3 t1 t2 t12 t3 show ?thesis by (simp add: stands_for_eq)
qed

theorem transformation_is_pure_witness:
  "rep scenario_heap (VRef 12) scenario_sheet \<and>
   rep scenario_heap (VRef 0) scenario_col_map \<and>
   rep scenario_heap_other (VRef 1) scenario_sheet \<and>
   rep scenario_heap_other (VRef 2) scenario_col_map \<and>
   fst (st_transform_server scenario_heap (VRef 12) (VRef 0)) = Inr (VRef 25) \<and>
   fst (st_transform_server scenario_heap_other (VRef 1) (VRef 2)) = Inr (VRef 26) \<and>
   take 13 (snd (st_transform_server scenario_heap (VRef 12) (VRef 0))) = scenario_heap \<and>
   take 14 (snd (st_transform_server scenario_heap_other (VRef 1) (VRef 2))) =
     scenario_heap_other \<and>
   rep (snd (st_transform_server scenario_heap (VRef 12) (VRef 0))) (VRef 25)
     scenario_output \<and>
   rep (snd (st_transform_server scenario_heap_other (VRef 1) (VRef 2))) (VRef 26)
     scenario_output \<and>
   rep (snd (st_transform_vercel scenario_heap (VRef 12) (VRef 0))) (VRef 25)
     scenario_output \<and>
   rep (snd (st_transform_vercel scenario_heap_other (VRef 1) (VRef 2))) (VRef 26)
     scenario_output"
proof -
  have len: "length scenario_heap = 13" "length scenario_heap_other = 14"
    by (simp_all add: scenario_heap_def scenario_heap_other_def)
  note t = transformation_is_pure [OF rep_scenario
      surjective_pairing [of "st_transform_server scenario_heap (VRef 12) (VRef 0)"]
      surjective_pairing
      surjective_pairing [of "st_transform_server scenario_heap_other (VRef 1) (VRef 2)"]
      surjective_pairing [of "st_transform_vercel scenario_heap (VRef 12) (VRef 0)"]
      surjective_pairing
      surjective_pairing [of "st_transform_vercel scenario_heap_other (VRef 1) (VRef 2)"]]
  from t scenario_runs scenario_server scenario_vercel have o:
    "stands_for (snd (st_transform_server scenario_heap (VRef 12) (VRef 0))) (Inr (VRef 25)) =
       {Inr scenario_output}"
    "stands_for (snd (st_transform_server scenario_heap_other (VRef 1) (VRef 2)))
       (Inr (VRef 26)) = {Inr scenario_output}"
    "stands_for (snd (st_transform_vercel scenario_heap (VRef 12) (VRef 0))) (Inr (VRef 25)) =
       {Inr scenario_output}"
    "stands_for (snd (st_transform_vercel scenario_heap_other (VRef 1) (VRef 2)))
       (Inr (VRef 26)) = {Inr scenario_output}"
    by simp_all
  from t rep_scenario scenario_runs len o [THEN stands_for_Inr] show ?thesis by simp
qed

section \<open>Status codes\<close>




end
